theory Spec2Isabelle
  imports Main "HOL-Library.Sublist"
begin

section \<open>Host values\<close>

text \<open>
  The application is a single JavaScript file; its state engine is the class
  \<open>StateManager\<close>, its import merge is \<open>Storage.importData\<close> and its drag-and-drop
  reordering is \<open>UI.reorderTasks\<close>.

  Conventions of the embedding:
  \<^item> an ISO-8601 timestamp string is represented by the instant \<open>new Date(s)\<close> reads from it,
    an \<open>int\<close> of milliseconds; strings that do not parse as dates are outside the model;
  \<^item> \<open>new Date().toISOString()\<close> and \<open>Utils.generateId()\<close> read the environment: every
    reading is an explicit argument of the operation that takes it;
  \<^item> a JavaScript string is represented by the bytes of its UTF-8 encoding (a \<open>string\<close>;
    unpaired surrogates are outside the model); \<open>trim\<close> strips the white space and line
    terminator code points of the language; \<open>toLowerCase\<close>, which follows the Unicode case
    tables, and \<open>localeCompare\<close>, which depends on the locale, are parameters (a \<open>host\<close>);
  \<^item> an exception is a value: an operation that can throw returns \<open>js_error + 'a\<close> together
    with the state it leaves behind;
  \<^item> subscribers (\<open>emit\<close>) and the debounced save do not change the manager and are left
    out; subscribers are taken not to throw.
\<close>

datatype js_error = TypeError | InvalidDataFormat

fun startsWith :: "'a list \<Rightarrow> 'a list \<Rightarrow> bool" where
  "startsWith s [] = True"
| "startsWith [] (c # q) = False"
| "startsWith (d # s) (c # q) = (d = c \<and> startsWith s q)"

text \<open>
  The code points \<open>String.prototype.trim\<close> strips, each as its UTF-8 bytes: the white
  space U+0009, U+000B, U+000C, U+0020, U+00A0, U+1680, U+2000 to U+200A, U+202F, U+205F,
  U+3000 and U+FEFF, and the line terminators U+000A, U+000D, U+2028 and U+2029.
\<close>

definition whiteSpace :: "string list" where
  "whiteSpace =
     [[CHR 0x09], [CHR 0x0A], [CHR 0x0B], [CHR 0x0C], [CHR 0x0D], [CHR 0x20],
      [CHR 0xC2, CHR 0xA0], [CHR 0xE1, CHR 0x9A, CHR 0x80],
      [CHR 0xE2, CHR 0x80, CHR 0x80], [CHR 0xE2, CHR 0x80, CHR 0x81],
      [CHR 0xE2, CHR 0x80, CHR 0x82], [CHR 0xE2, CHR 0x80, CHR 0x83],
      [CHR 0xE2, CHR 0x80, CHR 0x84], [CHR 0xE2, CHR 0x80, CHR 0x85],
      [CHR 0xE2, CHR 0x80, CHR 0x86], [CHR 0xE2, CHR 0x80, CHR 0x87],
      [CHR 0xE2, CHR 0x80, CHR 0x88], [CHR 0xE2, CHR 0x80, CHR 0x89],
      [CHR 0xE2, CHR 0x80, CHR 0x8A], [CHR 0xE2, CHR 0x80, CHR 0xA8],
      [CHR 0xE2, CHR 0x80, CHR 0xA9], [CHR 0xE2, CHR 0x80, CHR 0xAF],
      [CHR 0xE2, CHR 0x81, CHR 0x9F], [CHR 0xE3, CHR 0x80, CHR 0x80],
      [CHR 0xEF, CHR 0xBB, CHR 0xBF]]"

text \<open>Removing, from the front, every leading occurrence of one of the words \<open>ws\<close>.\<close>

fun stripLeading :: "'a list list \<Rightarrow> 'a list \<Rightarrow> 'a list" where
  "stripLeading ws [] = []"
| "stripLeading ws (c # s) =
     (case find (\<lambda>w. w \<noteq> [] \<and> startsWith (c # s) w) ws of
        None \<Rightarrow> c # s
      | Some w \<Rightarrow> stripLeading ws (drop (length w - 1) s))"

definition trimStart :: "string \<Rightarrow> string" where
  "trimStart s = stripLeading whiteSpace s"

definition trimEnd :: "string \<Rightarrow> string" where
  "trimEnd s = rev (stripLeading (map rev whiteSpace) (rev s))"

definition trim :: "string \<Rightarrow> string" where
  "trim s = trimEnd (trimStart s)"

text \<open>
  The functions the model takes from the host: \<open>a.localeCompare(b)\<close> and
  \<open>s.toLowerCase()\<close>.
\<close>

record host =
  localeCompare :: "string \<Rightarrow> string \<Rightarrow> int"
  toLowerCase :: "string \<Rightarrow> string"

text \<open>
  A host for the sample runs: its \<open>toLowerCase\<close> is the language's on strings of ASCII
  characters (the only ones the sample runs use), and its \<open>localeCompare\<close>, which no
  sample run reaches, is constant.
\<close>

definition asciiToLowerChar :: "char \<Rightarrow> char" where
  "asciiToLowerChar c =
     (case map_of (zip ''ABCDEFGHIJKLMNOPQRSTUVWXYZ'' ''abcdefghijklmnopqrstuvwxyz'') c of
        None \<Rightarrow> c
      | Some d \<Rightarrow> d)"

definition asciiToLowerCase :: "string \<Rightarrow> string" where
  "asciiToLowerCase s = map asciiToLowerChar s"

definition sampleHost :: host where
  "sampleHost = \<lparr>localeCompare = (\<lambda>a b. 0), toLowerCase = asciiToLowerCase\<rparr>"

text \<open>\<open>s.includes(q)\<close>: \<open>q\<close> occurs in \<open>s\<close> as a contiguous run.\<close>

fun includes_s :: "'a list \<Rightarrow> 'a list \<Rightarrow> bool" where
  "includes_s [] q = (q = [])"
| "includes_s (d # s) q = (startsWith (d # s) q \<or> includes_s s q)"

text \<open>\<open>xs.findIndex(P)\<close>: the first index whose element satisfies \<open>P\<close>, or \<open>-1\<close>.\<close>

fun findIndex :: "('a \<Rightarrow> bool) \<Rightarrow> 'a list \<Rightarrow> int" where
  "findIndex P [] = - 1"
| "findIndex P (x # xs) =
     (if P x then 0 else (let i = findIndex P xs in if i = - 1 then - 1 else i + 1))"

text \<open>
  \<open>xs.sort(cmp)\<close>: the engine's sort is stable; for a comparator that is a consistent
  ordering every stable sort returns the same list, and the model is insertion from the
  right, an element going before the first one it does not compare greater than.
\<close>

fun insertBy :: "('a \<Rightarrow> 'a \<Rightarrow> int) \<Rightarrow> 'a \<Rightarrow> 'a list \<Rightarrow> 'a list" where
  "insertBy cmp x [] = [x]"
| "insertBy cmp x (y # ys) = (if cmp x y \<le> 0 then x # y # ys else y # insertBy cmp x ys)"

definition sortBy :: "('a \<Rightarrow> 'a \<Rightarrow> int) \<Rightarrow> 'a list \<Rightarrow> 'a list" where
  "sortBy cmp xs = foldr (insertBy cmp) xs []"

text \<open>\<open>xs.slice(0, k)\<close>: a negative end counts from the end of the array.\<close>

definition slice0 :: "int \<Rightarrow> 'a list \<Rightarrow> 'a list" where
  "slice0 k xs = (if k < 0 then take (nat (int (length xs) + k)) xs else take (nat k) xs)"

text \<open>The start index of \<open>splice\<close>, clamped as the language does.\<close>

definition spliceStart :: "int \<Rightarrow> 'a list \<Rightarrow> nat" where
  "spliceStart i xs =
     (if i < 0 then nat (max (int (length xs) + i) 0) else min (nat i) (length xs))"

text \<open>\<open>const [removed] = xs.splice(i, 1)\<close>: the removed element, if any, and the rest.\<close>

definition spliceRemove :: "int \<Rightarrow> 'a list \<Rightarrow> 'a option \<times> 'a list" where
  "spliceRemove i xs =
     (let s = spliceStart i xs in
      if s < length xs then (Some (xs ! s), take s xs @ drop (Suc s) xs) else (None, xs))"

text \<open>\<open>xs.splice(i, 0, x)\<close>.\<close>

definition spliceInsert :: "int \<Rightarrow> 'a \<Rightarrow> 'a list \<Rightarrow> 'a list" where
  "spliceInsert i x xs = (let s = spliceStart i xs in take s xs @ x # drop s xs)"

section \<open>Data model\<close>

record task =
  id_t :: string
  title :: string
  notes_t :: string
  completed :: bool
  createdAt :: int
  updatedAt :: int
  dueAt :: "int option"
  priority :: string
  tags :: "string list"
  parentId :: "string option"
  order_t :: int

text \<open>The argument of \<open>addTask\<close>: only \<open>title\<close> is required.\<close>

record taskData =
  title_d :: string
  notes_d :: "string option"
  dueAt_d :: "int option"
  priority_d :: "string option"
  tags_d :: "string list option"
  parentId_d :: "string option"
  order_d :: "int option"

text \<open>A task object passed where a \<open>taskData\<close> is expected (the replay of \<open>ADD_TASK\<close>).\<close>

definition asTaskData :: "task \<Rightarrow> taskData" where
  "asTaskData t =
     \<lparr>title_d = title t, notes_d = Some (notes_t t), dueAt_d = dueAt t,
      priority_d = Some (priority t), tags_d = Some (tags t), parentId_d = parentId t,
      order_d = Some (order_t t)\<rparr>"

text \<open>The \<open>updates\<close> object of \<open>updateTask\<close>: any subset of a task's properties.\<close>

record updates =
  id_u :: "string option"
  title_u :: "string option"
  notes_u :: "string option"
  completed_u :: "bool option"
  createdAt_u :: "int option"
  updatedAt_u :: "int option"
  dueAt_u :: "int option option"
  priority_u :: "string option"
  tags_u :: "string list option"
  parentId_u :: "string option option"
  order_u :: "int option"

definition noUpdates :: updates where
  "noUpdates =
     \<lparr>id_u = None, title_u = None, notes_u = None, completed_u = None, createdAt_u = None,
      updatedAt_u = None, dueAt_u = None, priority_u = None, tags_u = None,
      parentId_u = None, order_u = None\<rparr>"

definition orElse :: "'a option \<Rightarrow> 'a \<Rightarrow> 'a" where
  "orElse u v = (case u of None \<Rightarrow> v | Some w \<Rightarrow> w)"

text \<open>The object spread \<open>{ ...t, ...u }\<close>.\<close>

definition spreadTask :: "task \<Rightarrow> updates \<Rightarrow> task" where
  "spreadTask t u =
     \<lparr>id_t = orElse (id_u u) (id_t t), title = orElse (title_u u) (title t),
      notes_t = orElse (notes_u u) (notes_t t), completed = orElse (completed_u u) (completed t),
      createdAt = orElse (createdAt_u u) (createdAt t),
      updatedAt = orElse (updatedAt_u u) (updatedAt t),
      dueAt = orElse (dueAt_u u) (dueAt t), priority = orElse (priority_u u) (priority t),
      tags = orElse (tags_u u) (tags t), parentId = orElse (parentId_u u) (parentId t),
      order_t = orElse (order_u u) (order_t t)\<rparr>"

text \<open>
  \<open>selectedTasks\<close> is a \<open>Set\<close> of ids. \<open>Utils.deepClone\<close> goes through JSON, where a \<open>Set\<close>
  is written as \<open>{}\<close>: the clone holds a plain object, which has no \<open>delete\<close> method.
\<close>

datatype selection = IdSet "string set" | PlainObject

datatype action =
    ADD_TASK task
  | UPDATE_TASK string updates
  | DELETE_TASK string
  | TOGGLE_COMPLETE string
  | CLEAR_COMPLETED nat
  | BULK_COMPLETE "string list"
  | BULK_DELETE "string list"
  | BULK_SET_PRIORITY "string list" string
  | UNDO
  | REDO

record appState =
  tasks :: "task list"
  filteredTasks :: "task list"
  selectedTasks :: selection
  currentFilter :: string
  currentSort :: string
  searchQuery :: string
  activeTagFilters :: "string list"
  theme :: string
  isLoading :: bool
  editingTask :: "task option"

record historyEntry =
  prevState :: appState
  action :: action

record manager =
  state :: appState
  history :: "historyEntry list"
  historyIndex :: int

text \<open>The manager as the constructor leaves it.\<close>

definition newManager :: manager where
  "newManager =
     \<lparr>state = \<lparr>tasks = [], filteredTasks = [], selectedTasks = IdSet {},
        currentFilter = ''all'', currentSort = ''created'', searchQuery = '''',
        activeTagFilters = [], theme = ''auto'', isLoading = True, editingTask = None\<rparr>,
      history = [], historyIndex = - 1\<rparr>"

definition historySize :: nat where
  "historySize = 10"

definition deepClone :: "appState \<Rightarrow> appState" where
  "deepClone s = s\<lparr>selectedTasks := PlainObject\<rparr>"

section \<open>The projection: \<open>updateFilteredTasks\<close> and \<open>sortTasks\<close>\<close>

text \<open>\<open>TASK_PRIORITIES[p] || TASK_PRIORITIES.none\<close>, then \<open>.order\<close>.\<close>

definition priorityOrder :: "string \<Rightarrow> int" where
  "priorityOrder p =
     (if p = ''high'' then 3 else if p = ''medium'' then 2 else if p = ''low'' then 1 else 0)"

text \<open>The comparator of \<open>sortTasks\<close>; \<open>lc\<close> is the host.\<close>

definition compareTasks :: "host \<Rightarrow> string \<Rightarrow> task \<Rightarrow> task \<Rightarrow> int" where
  "compareTasks lc sortType a b =
     (if sortType = ''due'' then
        (case (dueAt a, dueAt b) of
           (None, None) \<Rightarrow> createdAt b - createdAt a
         | (None, Some db) \<Rightarrow> 1
         | (Some da, None) \<Rightarrow> - 1
         | (Some da, Some db) \<Rightarrow> da - db)
      else if sortType = ''priority'' then
        (let priorityDiff = priorityOrder (priority b) - priorityOrder (priority a)
         in if priorityDiff \<noteq> 0 then priorityDiff else createdAt b - createdAt a)
      else if sortType = ''title'' then localeCompare lc (title a) (title b)
      else if sortType = ''manual'' then order_t a - order_t b
      else createdAt b - createdAt a)"

definition sortTasks :: "host \<Rightarrow> task list \<Rightarrow> string \<Rightarrow> task list" where
  "sortTasks lc ts sortType = sortBy (compareTasks lc sortType) ts"

text \<open>The four stages of \<open>updateFilteredTasks\<close>, in the order of the source.\<close>

definition applyMainFilter :: "string \<Rightarrow> task list \<Rightarrow> task list" where
  "applyMainFilter f ts =
     (if f = ''active'' then filter (\<lambda>t. \<not> completed t) ts
      else if f = ''completed'' then filter (\<lambda>t. completed t) ts
      else ts)"

definition searchMatches :: "host \<Rightarrow> string \<Rightarrow> task \<Rightarrow> bool" where
  "searchMatches lc query t =
     (includes_s (toLowerCase lc (title t)) query \<or>
      (notes_t t \<noteq> [] \<and> includes_s (toLowerCase lc (notes_t t)) query) \<or>
      list_ex (\<lambda>tag. includes_s (toLowerCase lc tag) query) (tags t))"

definition applySearchFilter :: "host \<Rightarrow> string \<Rightarrow> task list \<Rightarrow> task list" where
  "applySearchFilter lc searchQ ts =
     (if trim searchQ \<noteq> [] then
        (let query = toLowerCase lc searchQ in filter (searchMatches lc query) ts)
      else ts)"

definition applyTagFilters :: "host \<Rightarrow> string list \<Rightarrow> task list \<Rightarrow> task list" where
  "applyTagFilters lc fs ts =
     (if length fs > 0 then
        filter (\<lambda>t. list_all (\<lambda>filterTag.
                  list_ex (\<lambda>taskTag. toLowerCase lc taskTag = toLowerCase lc filterTag) (tags t)) fs) ts
      else ts)"

definition project :: "host \<Rightarrow> appState \<Rightarrow> task list" where
  "project lc s =
     sortTasks lc
       (applyTagFilters lc (activeTagFilters s)
         (applySearchFilter lc (searchQuery s)
           (applyMainFilter (currentFilter s) (tasks s))))
       (currentSort s)"

definition updateFilteredTasks :: "host \<Rightarrow> manager \<Rightarrow> manager" where
  "updateFilteredTasks lc m = m\<lparr>state := (state m)\<lparr>filteredTasks := project lc (state m)\<rparr>\<rparr>"

section \<open>History and \<open>setState\<close>\<close>

text \<open>The argument of \<open>setState\<close>: an object holding any subset of the state's properties.\<close>

record patch =
  tasks_p :: "task list option"
  filteredTasks_p :: "task list option"
  selectedTasks_p :: "selection option"
  currentFilter_p :: "string option"
  currentSort_p :: "string option"
  searchQuery_p :: "string option"
  activeTagFilters_p :: "string list option"
  theme_p :: "string option"
  isLoading_p :: "bool option"
  editingTask_p :: "task option option"

definition noPatch :: patch where
  "noPatch =
     \<lparr>tasks_p = None, filteredTasks_p = None, selectedTasks_p = None, currentFilter_p = None,
      currentSort_p = None, searchQuery_p = None, activeTagFilters_p = None, theme_p = None,
      isLoading_p = None, editingTask_p = None\<rparr>"

text \<open>A whole state passed as the argument of \<open>setState\<close> (by \<open>undo\<close>).\<close>

definition asPatch :: "appState \<Rightarrow> patch" where
  "asPatch s =
     \<lparr>tasks_p = Some (tasks s), filteredTasks_p = Some (filteredTasks s),
      selectedTasks_p = Some (selectedTasks s), currentFilter_p = Some (currentFilter s),
      currentSort_p = Some (currentSort s), searchQuery_p = Some (searchQuery s),
      activeTagFilters_p = Some (activeTagFilters s), theme_p = Some (theme s),
      isLoading_p = Some (isLoading s), editingTask_p = Some (editingTask s)\<rparr>"

text \<open>The object spread \<open>{ ...this.state, ...newState }\<close>.\<close>

definition spreadState :: "appState \<Rightarrow> patch \<Rightarrow> appState" where
  "spreadState s p =
     \<lparr>tasks = orElse (tasks_p p) (tasks s),
      filteredTasks = orElse (filteredTasks_p p) (filteredTasks s),
      selectedTasks = orElse (selectedTasks_p p) (selectedTasks s),
      currentFilter = orElse (currentFilter_p p) (currentFilter s),
      currentSort = orElse (currentSort_p p) (currentSort s),
      searchQuery = orElse (searchQuery_p p) (searchQuery s),
      activeTagFilters = orElse (activeTagFilters_p p) (activeTagFilters s),
      theme = orElse (theme_p p) (theme s),
      isLoading = orElse (isLoading_p p) (isLoading s),
      editingTask = orElse (editingTask_p p) (editingTask s)\<rparr>"

definition addToHistory :: "appState \<Rightarrow> action \<Rightarrow> manager \<Rightarrow> manager" where
  "addToHistory prev act m =
     (let h1 = (if historyIndex m < int (length (history m)) - 1
                then slice0 (historyIndex m + 1) (history m) else history m);
          h2 = h1 @ [\<lparr>prevState = prev, action = act\<rparr>]
      in if length h2 > historySize
         then m\<lparr>history := tl h2\<rparr>
         else m\<lparr>history := h2, historyIndex := historyIndex m + 1\<rparr>)"

text \<open>The test that guards the call of \<open>updateFilteredTasks\<close> in \<open>setState\<close>.\<close>

definition touchesProjection :: "patch \<Rightarrow> bool" where
  "touchesProjection p =
     (tasks_p p \<noteq> None \<or> currentFilter_p p \<noteq> None \<or> searchQuery_p p \<noteq> None \<or>
      activeTagFilters_p p \<noteq> None)"

definition setState :: "host \<Rightarrow> patch \<Rightarrow> action option \<Rightarrow> manager \<Rightarrow> manager" where
  "setState lc newState act m =
     (let prev = deepClone (state m);
          m1 = m\<lparr>state := spreadState (state m) newState\<rparr>;
          m2 = (case act of
                  None \<Rightarrow> m1
                | Some a \<Rightarrow> if a \<noteq> UNDO \<and> a \<noteq> REDO then addToHistory prev a m1 else m1)
      in if touchesProjection newState then updateFilteredTasks lc m2 else m2)"

section \<open>The operations of \<open>StateManager\<close>\<close>

text \<open>
  \<open>addTask\<close>: \<open>newId\<close> is what \<open>Utils.generateId()\<close> returns, \<open>now\<close> and \<open>now'\<close> are the
  two clock readings. \<open>x || d\<close> takes \<open>d\<close> when \<open>x\<close> is missing, empty or zero.
\<close>

definition addTask ::
  "host \<Rightarrow> string \<Rightarrow> int \<Rightarrow> int \<Rightarrow> taskData \<Rightarrow> bool \<Rightarrow> manager \<Rightarrow> task \<times> manager" where
  "addTask lc newId now now' td addToHist m =
     (let task =
        \<lparr>id_t = newId, title = trim (title_d td), notes_t = orElse (notes_d td) [],
         completed = False, createdAt = now, updatedAt = now', dueAt = dueAt_d td,
         priority = orElse (priority_d td) [], tags = orElse (tags_d td) [],
         parentId = (case parentId_d td of None \<Rightarrow> None
                     | Some p \<Rightarrow> if p = [] then None else Some p),
         order_t = (case order_d td of None \<Rightarrow> int (length (tasks (state m)))
                    | Some n \<Rightarrow> if n = 0 then int (length (tasks (state m))) else n)\<rparr>;
          newTasks = tasks (state m) @ [task]
      in (task, setState lc (noPatch\<lparr>tasks_p := Some newTasks\<rparr>)
                  (if addToHist then Some (ADD_TASK task) else None) m))"

text \<open>\<open>updateTask\<close> returns \<open>false\<close> (here \<open>None\<close>) or the updated task.\<close>

definition updateTask ::
  "host \<Rightarrow> int \<Rightarrow> string \<Rightarrow> updates \<Rightarrow> bool \<Rightarrow> manager \<Rightarrow> task option \<times> manager" where
  "updateTask lc now taskId upd addToHist m =
     (let taskIndex = findIndex (\<lambda>t. id_t t = taskId) (tasks (state m)) in
      if taskIndex = - 1 then (None, m)
      else
        (let updatedTask = (spreadTask (tasks (state m) ! nat taskIndex) upd)\<lparr>updatedAt := now\<rparr>;
             newTasks = (tasks (state m))[nat taskIndex := updatedTask]
         in (Some updatedTask,
             setState lc (noPatch\<lparr>tasks_p := Some newTasks\<rparr>)
               (if addToHist then Some (UPDATE_TASK taskId upd) else None) m)))"

text \<open>
  \<open>deleteTask\<close> ends with \<open>this.state.selectedTasks.delete(taskId)\<close>, which throws when
  the selection is the plain object a restored snapshot carries; the state is set by then.
\<close>

definition deleteTask ::
  "host \<Rightarrow> string \<Rightarrow> bool \<Rightarrow> manager \<Rightarrow> (js_error + unit) \<times> manager" where
  "deleteTask lc taskId addToHist m =
     (let newTasks = filter (\<lambda>t. id_t t \<noteq> taskId) (tasks (state m));
          m1 = setState lc (noPatch\<lparr>tasks_p := Some newTasks\<rparr>)
                 (if addToHist then Some (DELETE_TASK taskId) else None) m
      in case selectedTasks (state m1) of
           IdSet sel \<Rightarrow> (Inr (), m1\<lparr>state := (state m1)\<lparr>selectedTasks := IdSet (sel - {taskId})\<rparr>\<rparr>)
         | PlainObject \<Rightarrow> (Inl TypeError, m1))"

definition toggleTaskComplete ::
  "host \<Rightarrow> int \<Rightarrow> string \<Rightarrow> bool \<Rightarrow> manager \<Rightarrow> task option \<times> manager" where
  "toggleTaskComplete lc now taskId addToHist m =
     (case find (\<lambda>t. id_t t = taskId) (tasks (state m)) of
        None \<Rightarrow> (None, m)
      | Some task \<Rightarrow>
          updateTask lc now taskId (noUpdates\<lparr>completed_u := Some (\<not> completed task)\<rparr>)
            addToHist m)"

definition clearCompleted :: "host \<Rightarrow> manager \<Rightarrow> nat \<times> manager" where
  "clearCompleted lc m =
     (let completedTasks = filter (\<lambda>t. completed t) (tasks (state m));
          newTasks = filter (\<lambda>t. \<not> completed t) (tasks (state m))
      in (length completedTasks,
          setState lc (noPatch\<lparr>tasks_p := Some newTasks\<rparr>)
            (Some (CLEAR_COMPLETED (length completedTasks))) m))"

text \<open>
  The bulk operations read the clock once for every task they change: \<open>clk i\<close> is the
  reading taken for the task at index \<open>i\<close>.
\<close>

definition bulkComplete ::
  "host \<Rightarrow> (nat \<Rightarrow> int) \<Rightarrow> string list \<Rightarrow> manager \<Rightarrow> manager" where
  "bulkComplete lc clk taskIds m =
     (let newTasks =
            map (\<lambda>(i, t). if id_t t \<in> set taskIds
                          then t\<lparr>completed := True, updatedAt := clk i\<rparr> else t)
              (enumerate 0 (tasks (state m)))
      in setState lc (noPatch\<lparr>tasks_p := Some newTasks\<rparr>) (Some (BULK_COMPLETE taskIds)) m)"

definition bulkDelete ::
  "host \<Rightarrow> string list \<Rightarrow> manager \<Rightarrow> (js_error + unit) \<times> manager" where
  "bulkDelete lc taskIds m =
     (let newTasks = filter (\<lambda>t. id_t t \<notin> set taskIds) (tasks (state m));
          m1 = setState lc (noPatch\<lparr>tasks_p := Some newTasks\<rparr>) (Some (BULK_DELETE taskIds)) m
      in case selectedTasks (state m1) of
           IdSet sel \<Rightarrow> (Inr (), m1\<lparr>state := (state m1)\<lparr>selectedTasks := IdSet (sel - set taskIds)\<rparr>\<rparr>)
         | PlainObject \<Rightarrow> if taskIds = [] then (Inr (), m1) else (Inl TypeError, m1))"

definition bulkSetPriority ::
  "host \<Rightarrow> (nat \<Rightarrow> int) \<Rightarrow> string list \<Rightarrow> string \<Rightarrow> manager \<Rightarrow> manager" where
  "bulkSetPriority lc clk taskIds p m =
     (let newTasks =
            map (\<lambda>(i, t). if id_t t \<in> set taskIds
                          then t\<lparr>priority := p, updatedAt := clk i\<rparr> else t)
              (enumerate 0 (tasks (state m)))
      in setState lc (noPatch\<lparr>tasks_p := Some newTasks\<rparr>)
           (Some (BULK_SET_PRIORITY taskIds p)) m)"

text \<open>
  \<open>undo\<close> reads \<open>this.history[this.historyIndex]\<close> and destructures it: an index past the
  end reads \<open>undefined\<close> and throws before anything is changed.
\<close>

definition undo :: "host \<Rightarrow> manager \<Rightarrow> (js_error + bool) \<times> manager" where
  "undo lc m =
     (if historyIndex m \<ge> 0 then
        (if nat (historyIndex m) < length (history m) then
           (let e = history m ! nat (historyIndex m);
                m1 = m\<lparr>historyIndex := historyIndex m - 1\<rparr>
            in (Inr True, setState lc (asPatch (prevState e)) (Some UNDO) m1))
         else (Inl TypeError, m))
      else (Inr False, m))"

text \<open>\<open>executeAction\<close>: the \<open>switch\<close> has four cases and no default.\<close>

definition executeAction ::
  "host \<Rightarrow> string \<Rightarrow> int \<Rightarrow> int \<Rightarrow> action \<Rightarrow> manager \<Rightarrow> (js_error + unit) \<times> manager" where
  "executeAction lc newId now now' act m =
     (case act of
        ADD_TASK task \<Rightarrow> (Inr (), snd (addTask lc newId now now' (asTaskData task) False m))
      | UPDATE_TASK taskId upd \<Rightarrow> (Inr (), snd (updateTask lc now taskId upd False m))
      | DELETE_TASK taskId \<Rightarrow> deleteTask lc taskId False m
      | TOGGLE_COMPLETE taskId \<Rightarrow> (Inr (), snd (toggleTaskComplete lc now taskId False m))
      | _ \<Rightarrow> (Inr (), m))"

text \<open>
  \<open>redo\<close>: \<open>newId\<close>, \<open>now\<close> and \<open>now'\<close> are the readings the replayed operation takes.
  The position is advanced before the entry is read.
\<close>

definition redo ::
  "host \<Rightarrow> string \<Rightarrow> int \<Rightarrow> int \<Rightarrow> manager \<Rightarrow> (js_error + bool) \<times> manager" where
  "redo lc newId now now' m =
     (if historyIndex m < int (length (history m)) - 1 then
        (let m1 = m\<lparr>historyIndex := historyIndex m + 1\<rparr> in
         if 0 \<le> historyIndex m1 then
           (case executeAction lc newId now now' (action (history m1 ! nat (historyIndex m1))) m1 of
              (Inl e, m2) \<Rightarrow> (Inl e, m2)
            | (Inr u, m2) \<Rightarrow> (Inr True, m2))
         else (Inl TypeError, m1))
      else (Inr False, m))"

section \<open>\<open>UI.reorderTasks\<close>\<close>

text \<open>
  \<open>insertAfter\<close> is what the handler computes from the pointer position; \<open>clk i\<close> is the
  clock reading taken for the task at index \<open>i\<close>. The source writes \<open>order\<close> and
  \<open>updatedAt\<close> into the task objects themselves, which a restored snapshot may share;
  the model keeps snapshots as values and covers the list that replaces \<open>tasks\<close>. With an
  empty collection the removed element is \<open>undefined\<close> and the renumbering throws.
\<close>

definition reorderTasks ::
  "host \<Rightarrow> (nat \<Rightarrow> int) \<Rightarrow> string \<Rightarrow> string \<Rightarrow> bool \<Rightarrow> manager \<Rightarrow> (js_error + unit) \<times> manager" where
  "reorderTasks lc clk draggedId targetId insertAfter m =
     (let allTasks = tasks (state m);
          draggedIndex = findIndex (\<lambda>t. id_t t = draggedId) allTasks;
          targetIndex = findIndex (\<lambda>t. id_t t = targetId) allTasks
      in case spliceRemove draggedIndex allTasks of
           (None, rest) \<Rightarrow> (Inl TypeError, m)
         | (Some removed, rest) \<Rightarrow>
             (let newIndex = (if insertAfter then targetIndex else targetIndex);
                  placed = spliceInsert newIndex removed rest;
                  renumbered = map (\<lambda>(i, t). t\<lparr>order_t := int i, updatedAt := clk i\<rparr>)
                                 (enumerate 0 placed)
              in (Inr (), setState lc (noPatch\<lparr>tasks_p := Some renumbered\<rparr>) None m)))"

section \<open>\<open>Storage.importData\<close>\<close>

text \<open>The \<open>tasks\<close> property of the imported object: falsy, not an array, or an array.\<close>

datatype tasksField = Missing | NotArray | TaskArray "task list"

record snapshot =
  tasks_s :: "task list"
  currentFilter_s :: string
  currentSort_s :: string
  activeTagFilters_s :: "string list"
  searchQuery_s :: string
  theme_s :: string
  version_s :: string

text \<open>The body of the \<open>forEach\<close> over the imported tasks.\<close>

definition mergeTask :: "task list \<Rightarrow> task \<Rightarrow> task list" where
  "mergeTask mergedTasks importedTask =
     (let existingIndex = findIndex (\<lambda>t. id_t t = id_t importedTask) mergedTasks in
      if existingIndex \<ge> 0 then
        (if updatedAt importedTask > updatedAt (mergedTasks ! nat existingIndex)
         then mergedTasks[nat existingIndex := importedTask] else mergedTasks)
      else mergedTasks @ [importedTask])"

text \<open>
  \<open>existingData\<close> is what \<open>Storage.load()\<close> resolves to; the merged snapshot is saved
  and returned.
\<close>

definition importData :: "snapshot \<Rightarrow> tasksField \<Rightarrow> js_error + snapshot" where
  "importData existingData importedTasks =
     (case importedTasks of
        Missing \<Rightarrow> Inl InvalidDataFormat
      | NotArray \<Rightarrow> Inl InvalidDataFormat
      | TaskArray ts \<Rightarrow> Inr (existingData\<lparr>tasks_s := foldl mergeTask (tasks_s existingData) ts\<rparr>))"

section \<open>Sequences of operations\<close>

text \<open>
  The public mutating operations, each called as the user interface calls it (history
  recording left at its default, on), with the readings it takes from the environment.
\<close>

datatype command =
    AddTask string int int taskData
  | UpdateTask int string updates
  | DeleteTask string
  | ToggleTaskComplete int string
  | ClearCompleted
  | BulkComplete "nat \<Rightarrow> int" "string list"
  | BulkDelete "string list"
  | BulkSetPriority "nat \<Rightarrow> int" "string list" string

fun perform :: "host \<Rightarrow> command \<Rightarrow> manager \<Rightarrow> manager" where
  "perform lc (AddTask newId now now' td) m = snd (addTask lc newId now now' td True m)"
| "perform lc (UpdateTask now taskId upd) m = snd (updateTask lc now taskId upd True m)"
| "perform lc (DeleteTask taskId) m = snd (deleteTask lc taskId True m)"
| "perform lc (ToggleTaskComplete now taskId) m = snd (toggleTaskComplete lc now taskId True m)"
| "perform lc ClearCompleted m = snd (clearCompleted lc m)"
| "perform lc (BulkComplete clk taskIds) m = bulkComplete lc clk taskIds m"
| "perform lc (BulkDelete taskIds) m = snd (bulkDelete lc taskIds m)"
| "perform lc (BulkSetPriority clk taskIds p) m = bulkSetPriority lc clk taskIds p m"

text \<open>
  Whether the operation reaches \<open>setState\<close> with an action: \<open>updateTask\<close> and
  \<open>toggleTaskComplete\<close> return early on an id that is not in the collection.
\<close>

fun recorded :: "command \<Rightarrow> manager \<Rightarrow> bool" where
  "recorded (UpdateTask now taskId upd) m = list_ex (\<lambda>t. id_t t = taskId) (tasks (state m))"
| "recorded (ToggleTaskComplete now taskId) m = list_ex (\<lambda>t. id_t t = taskId) (tasks (state m))"
| "recorded c m = True"

definition performAll :: "host \<Rightarrow> command list \<Rightarrow> manager \<Rightarrow> manager" where
  "performAll lc cs m = foldl (\<lambda>m' c. perform lc c m') m cs"

fun allRecorded :: "host \<Rightarrow> command list \<Rightarrow> manager \<Rightarrow> bool" where
  "allRecorded lc [] m = True"
| "allRecorded lc (c # cs) m = (recorded c m \<and> allRecorded lc cs (perform lc c m))"

text \<open>\<open>undo\<close> called \<open>n\<close> times: what each call returned, and the manager at the end.\<close>

fun undoTimes :: "host \<Rightarrow> nat \<Rightarrow> manager \<Rightarrow> (js_error + bool) list \<times> manager" where
  "undoTimes lc 0 m = ([], m)"
| "undoTimes lc (Suc n) m =
     (let r = undo lc m; rest = undoTimes lc n (snd r) in (fst r # fst rest, snd rest))"

text \<open>The position is \<open>-1\<close> or the index of an entry, and the log is within its bound.\<close>

definition histOk :: "manager \<Rightarrow> bool" where
  "histOk m =
     (- 1 \<le> historyIndex m \<and> historyIndex m < int (length (history m)) \<and>
      length (history m) \<le> historySize)"

text \<open>
  Equality of two states in everything but \<open>selectedTasks\<close> and the derived
  \<open>filteredTasks\<close>.
\<close>

definition sameContent :: "appState \<Rightarrow> appState \<Rightarrow> bool" where
  "sameContent s s' =
     (tasks s = tasks s' \<and> currentFilter s = currentFilter s' \<and> currentSort s = currentSort s' \<and>
      searchQuery s = searchQuery s' \<and> activeTagFilters s = activeTagFilters s' \<and>
      theme s = theme s' \<and> isLoading s = isLoading s' \<and> editingTask s = editingTask s')"

section \<open>Sample values\<close>

definition mkTask :: "string \<Rightarrow> string \<Rightarrow> int \<Rightarrow> int \<Rightarrow> task" where
  "mkTask i ttl t ord =
     \<lparr>id_t = i, title = ttl, notes_t = [], completed = False, createdAt = t, updatedAt = t,
      dueAt = None, priority = [], tags = [], parentId = None, order_t = ord\<rparr>"

text \<open>A fresh manager whose collection has been loaded with \<open>setState({ tasks })\<close>.\<close>

definition withTasks :: "task list \<Rightarrow> manager" where
  "withTasks ts = setState sampleHost (noPatch\<lparr>tasks_p := Some ts\<rparr>) None newManager"

definition titled :: "string \<Rightarrow> taskData" where
  "titled s =
     \<lparr>title_d = s, notes_d = None, dueAt_d = None, priority_d = None, tags_d = None,
      parentId_d = None, order_d = None\<rparr>"

text \<open>The states in which the commands of a sequence are performed, in order.\<close>

fun statesBefore :: "host \<Rightarrow> command list \<Rightarrow> manager \<Rightarrow> appState list" where
  "statesBefore lc [] m = []"
| "statesBefore lc (c # cs) m = state m # statesBefore lc cs (perform lc c m)"

text \<open>Eleven additions, with ids and clock readings \<open>0, \<dots>, 10\<close>.\<close>

definition elevenAdds :: "command list" where
  "elevenAdds = map (\<lambda>n. AddTask (replicate (Suc n) CHR ''i'') (int n) (int n) (titled ''x'')) [0..<11]"

text \<open>A manager whose log is full: ten deletions on a fresh manager.\<close>

definition fullManager :: manager where
  "fullManager = performAll sampleHost (replicate 10 (DeleteTask ''zz'')) newManager"

text \<open>A stored snapshot with default preferences.\<close>

definition storedWith :: "task list \<Rightarrow> snapshot" where
  "storedWith ts =
     \<lparr>tasks_s = ts, currentFilter_s = ''all'', currentSort_s = ''created'',
      activeTagFilters_s = [], searchQuery_s = [], theme_s = ''auto'', version_s = ''1.0.0''\<rparr>"

section \<open>The merge rule, stated on its own\<close>

text \<open>What one imported task \<open>t\<close> does to a local task \<open>x\<close>: it replaces it when it has the
  same id and is strictly newer.\<close>

definition lastWriteWins :: "task \<Rightarrow> task \<Rightarrow> task" where
  "lastWriteWins t x = (if id_t x = id_t t \<and> updatedAt t > updatedAt x then t else x)"

text \<open>
  What an import does to a local task \<open>x\<close>: the incoming task with the same id, if there
  is one and it is strictly newer, otherwise \<open>x\<close> itself.
\<close>

definition mergedWith :: "task list \<Rightarrow> task \<Rightarrow> task" where
  "mergedWith incoming x =
     (case find (\<lambda>t. id_t t = id_t x) incoming of
        None \<Rightarrow> x
      | Some t \<Rightarrow> if updatedAt t > updatedAt x then t else x)"

section \<open>Vocabulary for the undo and redo round trip\<close>

text \<open>
  The action descriptor an operation passes to \<open>setState\<close>, if it gets there.
  \<open>toggleTaskComplete\<close> goes through \<open>updateTask\<close> and so records \<open>UPDATE_TASK\<close>.
\<close>

fun recordedAction :: "host \<Rightarrow> command \<Rightarrow> manager \<Rightarrow> action option" where
  "recordedAction lc (AddTask newId now now' td) m =
     Some (ADD_TASK (fst (addTask lc newId now now' td True m)))"
| "recordedAction lc (UpdateTask now taskId upd) m =
     (if list_ex (\<lambda>t. id_t t = taskId) (tasks (state m)) then Some (UPDATE_TASK taskId upd)
      else None)"
| "recordedAction lc (DeleteTask taskId) m = Some (DELETE_TASK taskId)"
| "recordedAction lc (ToggleTaskComplete now taskId) m =
     (case find (\<lambda>t. id_t t = taskId) (tasks (state m)) of
        None \<Rightarrow> None
      | Some task \<Rightarrow> Some (UPDATE_TASK taskId (noUpdates\<lparr>completed_u := Some (\<not> completed task)\<rparr>)))"
| "recordedAction lc ClearCompleted m =
     Some (CLEAR_COMPLETED (length (filter (\<lambda>t. completed t) (tasks (state m)))))"
| "recordedAction lc (BulkComplete clk taskIds) m = Some (BULK_COMPLETE taskIds)"
| "recordedAction lc (BulkDelete taskIds) m = Some (BULK_DELETE taskIds)"
| "recordedAction lc (BulkSetPriority clk taskIds p) m = Some (BULK_SET_PRIORITY taskIds p)"

text \<open>The operations whose recorded action \<open>executeAction\<close> has a case for.\<close>

fun replayable :: "command \<Rightarrow> bool" where
  "replayable (AddTask newId now now' td) = True"
| "replayable (UpdateTask now taskId upd) = True"
| "replayable (DeleteTask taskId) = True"
| "replayable (ToggleTaskComplete now taskId) = True"
| "replayable c = False"

text \<open>The same operation with other readings of the id generator and the clock.\<close>

fun withReadings :: "command \<Rightarrow> string \<Rightarrow> int \<Rightarrow> int \<Rightarrow> command" where
  "withReadings (AddTask i t t' td) newId now now' = AddTask newId now now' td"
| "withReadings (UpdateTask t taskId upd) newId now now' = UpdateTask now taskId upd"
| "withReadings (ToggleTaskComplete t taskId) newId now now' = ToggleTaskComplete now taskId"
| "withReadings c newId now now' = c"

section \<open>Facts about the host functions\<close>

lemmas eval_defs = mkTask_def withTasks_def newManager_def setState_def noPatch_def spreadState_def
  orElse_def deepClone_def touchesProjection_def updateFilteredTasks_def project_def
  sortTasks_def sortBy_def compareTasks_def applyMainFilter_def applySearchFilter_def
  applyTagFilters_def trim_def trimStart_def trimEnd_def whiteSpace_def addToHistory_def
  historySize_def slice0_def asPatch_def

lemma startsWith_prefix: "startsWith s q \<longleftrightarrow> prefix q s"
  by (induction s q rule: startsWith.induct) auto

lemma stripLeading_suffix: "suffix (stripLeading ws s) s"
proof (induction ws s rule: stripLeading.induct)
  case (1 ws)
  show ?case by simp
next
  case (2 ws c s)
  show ?case
  proof (cases "find (\<lambda>w. w \<noteq> [] \<and> startsWith (c # s) w) ws")
    case None
    then show ?thesis by simp
  next
    case (Some w)
    from 2 [OF Some] have "suffix (stripLeading ws (drop (length w - 1) s)) (drop (length w - 1) s)" .
    moreover have "suffix (drop (length w - 1) s) (c # s)"
      by (meson suffix_drop suffix_ConsI)
    ultimately show ?thesis using Some by (auto intro: suffix_order.trans)
  qed
qed

lemma stripLeading_fixed:
  "find (\<lambda>w. w \<noteq> [] \<and> prefix w s) ws = None \<Longrightarrow> stripLeading ws s = s"
  by (cases s) (simp_all add: startsWith_prefix)

lemma stripLeading_stripped:
  "find (\<lambda>w. w \<noteq> [] \<and> prefix w (stripLeading ws s)) ws = None"
proof (induction ws s rule: stripLeading.induct)
  case (1 ws)
  show ?case by (simp add: find_None_iff)
next
  case (2 ws c s)
  show ?case
  proof (cases "find (\<lambda>w. w \<noteq> [] \<and> startsWith (c # s) w) ws")
    case None
    then show ?thesis by (simp add: startsWith_prefix)
  next
    case (Some w)
    from 2 [OF Some] Some show ?thesis by simp
  qed
qed

text \<open>Trimming a trimmed string changes nothing.\<close>

lemma trim_idem: "trim (trim s) = trim s"
proof -
  let ?W = whiteSpace
  let ?R = "map rev whiteSpace"
  let ?a = "stripLeading ?W s"
  let ?c = "stripLeading ?R (rev ?a)"
  have b: "trim s = rev ?c" by (simp add: trim_def trimStart_def trimEnd_def)
  have "suffix ?c (rev ?a)" by (rule stripLeading_suffix)
  then have pre: "prefix (rev ?c) ?a" by (simp add: suffix_to_prefix)
  have na: "find (\<lambda>w. w \<noteq> [] \<and> prefix w ?a) ?W = None" by (rule stripLeading_stripped)
  have "find (\<lambda>w. w \<noteq> [] \<and> prefix w (rev ?c)) ?W = None"
  proof -
    have "\<not> (w \<noteq> [] \<and> prefix w (rev ?c))" if "w \<in> set ?W" for w
    proof
      assume "w \<noteq> [] \<and> prefix w (rev ?c)"
      with pre have "w \<noteq> [] \<and> prefix w ?a" by (auto intro: prefix_order.trans)
      with that na show False by (auto simp: find_None_iff)
    qed
    then show ?thesis by (auto simp: find_None_iff)
  qed
  then have l: "stripLeading ?W (rev ?c) = rev ?c" by (rule stripLeading_fixed)
  have "find (\<lambda>w. w \<noteq> [] \<and> prefix w ?c) ?R = None" by (rule stripLeading_stripped)
  then have r: "stripLeading ?R ?c = ?c" by (rule stripLeading_fixed)
  have "trim (rev ?c) = rev ?c"
    by (simp add: trim_def trimStart_def trimEnd_def l r)
  then show ?thesis by (simp only: b)
qed

lemma trim_Nil: "trim [] = []"
  by (simp add: trim_def trimStart_def trimEnd_def)

lemma findIndex_ge: "- 1 \<le> findIndex P xs"
  by (induction xs) (auto simp: Let_def)

lemma findIndex_none: "findIndex P xs = - 1 \<longleftrightarrow> (\<forall>x \<in> set xs. \<not> P x)"
proof (induction xs)
  case Nil
  show ?case by simp
next
  case (Cons x xs)
  have "- 1 \<le> findIndex P xs" by (rule findIndex_ge)
  with Cons show ?case by (auto simp: Let_def)
qed

lemma findIndex_lt: "findIndex P xs < int (length xs)"
  by (induction xs) (auto simp: Let_def)

lemma findIndex_sat: "findIndex P xs \<noteq> - 1 \<Longrightarrow> P (xs ! nat (findIndex P xs))"
proof (induction xs)
  case Nil
  then show ?case by simp
next
  case (Cons x xs)
  have ge: "- 1 \<le> findIndex P xs" by (rule findIndex_ge)
  show ?case
  proof (cases "P x")
    case True
    then show ?thesis by simp
  next
    case False
    with Cons.prems have ne: "findIndex P xs \<noteq> - 1" by (auto simp: Let_def split: if_splits)
    with ge have "0 \<le> findIndex P xs" by linarith
    then have "nat (findIndex P xs + 1) = Suc (nat (findIndex P xs))" by simp
    with False ne Cons.IH show ?thesis by (simp add: Let_def)
  qed
qed

lemma find_none_absent: "(\<forall>x \<in> set xs. \<not> P x) \<Longrightarrow> find P xs = None"
  by (induction xs) auto

section \<open>Operations on an id that is not in the collection\<close>

text \<open>
  Claim C8. When no task of the collection has the given id, \<open>updateTask\<close> and
  \<open>toggleTaskComplete\<close> return \<open>false\<close> (the value \<open>None\<close>) without throwing, and the
  manager they leave is the one they were given: tasks, filtered tasks, history log and
  position are all untouched, whether or not history recording was asked for.
\<close>

theorem absent_id_is_noop:
  assumes "taskId \<notin> id_t ` set (tasks (state m))"
  shows "updateTask lc now taskId upd h m = (None, m) \<and>
         toggleTaskComplete lc now taskId h m = (None, m)"
proof -
  from assms have none: "\<forall>t \<in> set (tasks (state m)). \<not> id_t t = taskId" by auto
  then have "findIndex (\<lambda>t. id_t t = taskId) (tasks (state m)) = - 1"
    by (simp add: findIndex_none)
  then have u: "updateTask lc now taskId upd h m = (None, m)"
    by (simp add: updateTask_def)
  from none have "find (\<lambda>t. id_t t = taskId) (tasks (state m)) = None"
    by (rule find_none_absent)
  then have "toggleTaskComplete lc now taskId h m = (None, m)"
    by (simp add: toggleTaskComplete_def)
  with u show ?thesis by simp
qed

theorem absent_id_is_noop_witness:
  "updateTask sampleHost 5 ''zz'' (noUpdates\<lparr>title_u := Some ''new''\<rparr>) True
     (withTasks [mkTask ''a'' ''x'' 1 0]) = (None, withTasks [mkTask ''a'' ''x'' 1 0]) \<and>
   toggleTaskComplete sampleHost 5 ''zz'' True (withTasks [mkTask ''a'' ''x'' 1 0])
     = (None, withTasks [mkTask ''a'' ''x'' 1 0]) \<and>
   tasks (state (withTasks [mkTask ''a'' ''x'' 1 0])) = [mkTask ''a'' ''x'' 1 0]"
proof -
  have t: "tasks (state (withTasks [mkTask ''a'' ''x'' 1 0])) = [mkTask ''a'' ''x'' 1 0]"
    by (simp add: eval_defs)
  have "''zz'' \<notin> id_t ` set (tasks (state (withTasks [mkTask ''a'' ''x'' 1 0])))"
    by (simp add: t) (simp add: mkTask_def)
  from absent_id_is_noop [OF this] t show ?thesis by blast
qed

section \<open>Facts about \<open>setState\<close>\<close>

lemma state_addToHistory: "state (addToHistory prev a m) = state m"
  by (simp add: addToHistory_def Let_def)

lemma state_setState:
  "state (setState lc p act m) =
     (if touchesProjection p
      then (spreadState (state m) p)\<lparr>filteredTasks := project lc (spreadState (state m) p)\<rparr>
      else spreadState (state m) p)"
  by (simp add: setState_def Let_def updateFilteredTasks_def state_addToHistory
      split: option.splits)

lemma history_setState_plain:
  "act = None \<or> act = Some UNDO \<or> act = Some REDO \<Longrightarrow>
   history (setState lc p act m) = history m \<and> historyIndex (setState lc p act m) = historyIndex m"
  by (auto simp: setState_def Let_def updateFilteredTasks_def)

lemma history_setState_recorded:
  "a \<noteq> UNDO \<Longrightarrow> a \<noteq> REDO \<Longrightarrow>
   history (setState lc p (Some a) m) = history (addToHistory (deepClone (state m)) a m) \<and>
   historyIndex (setState lc p (Some a) m) = historyIndex (addToHistory (deepClone (state m)) a m)"
  by (simp add: setState_def Let_def updateFilteredTasks_def addToHistory_def)

lemma setState_projection:
  "touchesProjection p \<Longrightarrow>
   filteredTasks (state (setState lc p act m)) = project lc (state (setState lc p act m))"
  by (simp add: state_setState project_def)

lemma project_cong:
  "tasks s = tasks s' \<Longrightarrow> currentFilter s = currentFilter s' \<Longrightarrow> searchQuery s = searchQuery s' \<Longrightarrow>
   activeTagFilters s = activeTagFilters s' \<Longrightarrow> currentSort s = currentSort s' \<Longrightarrow>
   project lc s = project lc s'"
  by (simp add: project_def)

lemma setState_keeps_projection:
  assumes "\<not> touchesProjection p" and "currentSort_p p = None" and "filteredTasks_p p = None"
    and "filteredTasks (state m) = project lc (state m)"
  shows "filteredTasks (state (setState lc p act m)) = project lc (state (setState lc p act m))"
proof -
  from assms(1) have n: "tasks_p p = None" "currentFilter_p p = None" "searchQuery_p p = None"
    "activeTagFilters_p p = None"
    by (auto simp: touchesProjection_def)
  have "project lc (spreadState (state m) p) = project lc (state m)"
    by (rule project_cong) (simp_all add: spreadState_def orElse_def n assms(2))
  with assms show ?thesis
    by (simp add: state_setState) (simp add: spreadState_def orElse_def)
qed

section \<open>The derived list after \<open>setState\<close>\<close>

text \<open>
  Claim C4 says that after every \<open>setState\<close>, a change of \<open>currentSort\<close> alone included,
  \<open>filteredTasks\<close> is the projection of the current state. The guard of \<open>setState\<close>
  tests \<open>tasks\<close>, \<open>currentFilter\<close>, \<open>searchQuery\<close> and \<open>activeTagFilters\<close> and
  leaves \<open>currentSort\<close> out. Here a collection of two tasks is shown newest first; the
  sort selector then sets \<open>currentSort\<close> to \<open>manual\<close>: \<open>filteredTasks\<close> keeps the old
  order \<open>a, b\<close>, while the projection of the new state is \<open>b, a\<close>.
\<close>

theorem sort_only_change_leaves_stale_projection:
  "filteredTasks (state (withTasks [mkTask ''a'' ''x'' 2 1, mkTask ''b'' ''y'' 1 0]))
     = project lc (state (withTasks [mkTask ''a'' ''x'' 2 1, mkTask ''b'' ''y'' 1 0])) \<and>
   map id_t (filteredTasks (state (setState lc (noPatch\<lparr>currentSort_p := Some ''manual''\<rparr>) None
     (withTasks [mkTask ''a'' ''x'' 2 1, mkTask ''b'' ''y'' 1 0])))) = [''a'', ''b''] \<and>
   map id_t (project lc (state (setState lc (noPatch\<lparr>currentSort_p := Some ''manual''\<rparr>) None
     (withTasks [mkTask ''a'' ''x'' 2 1, mkTask ''b'' ''y'' 1 0])))) = [''b'', ''a'']"
  by (simp add: eval_defs)

section \<open>Reordering\<close>

text \<open>
  Claim C7 says that the dragged task lands after the target when \<open>insertAfter\<close> is true
  and before it when false. The source computes
  \<open>insertAfter ? targetIndex : targetIndex\<close>, so the flag has no effect: the side depends
  on the direction of the drag. Dragging \<open>c\<close> onto \<open>a\<close> with \<open>insertAfter\<close> true puts
  \<open>c\<close> before \<open>a\<close>; dragging \<open>a\<close> onto \<open>c\<close> with \<open>insertAfter\<close> false puts \<open>a\<close>
  after \<open>c\<close>.
\<close>

theorem reorder_side_ignores_insertAfter:
  "map id_t (tasks (state (snd (reorderTasks lc clk ''c'' ''a'' True
      (withTasks [mkTask ''a'' ''x'' 1 0, mkTask ''b'' ''y'' 2 1, mkTask ''c'' ''z'' 3 2])))))
     = [''c'', ''a'', ''b''] \<and>
   map id_t (tasks (state (snd (reorderTasks lc clk ''a'' ''c'' False
      (withTasks [mkTask ''a'' ''x'' 1 0, mkTask ''b'' ''y'' 2 1, mkTask ''c'' ''z'' 3 2])))))
     = [''b'', ''c'', ''a'']"
  by (simp add: eval_defs reorderTasks_def spliceRemove_def spliceInsert_def spliceStart_def
      Let_def enumerate_eq_zip)

text \<open>
  What does hold of every reorder of a non-empty collection: the flag is ignored, the
  length is kept, the \<open>order\<close> fields are \<open>0, 1, \<dots>, n - 1\<close> in positional order and
  every \<open>updatedAt\<close> is a fresh clock reading.
\<close>

lemma reorderTasks_insertAfter_irrelevant:
  "reorderTasks lc clk draggedId targetId True m = reorderTasks lc clk draggedId targetId False m"
  by (simp add: reorderTasks_def Let_def split: prod.splits option.splits)

lemma map_enumerate_order:
  "map order_t (map (\<lambda>(i, t). t\<lparr>order_t := int i, updatedAt := clk i\<rparr>) (enumerate n xs))
     = map int [n..<n + length xs]"
proof (induction xs arbitrary: n)
  case Nil
  show ?case by simp
next
  case (Cons x xs)
  have "[n..<n + length (x # xs)] = n # [Suc n..<Suc n + length xs]"
    by (subst upt_rec) simp
  with Cons.IH [of "Suc n"] show ?case by simp
qed

lemma map_enumerate_updatedAt:
  "map updatedAt (map (\<lambda>(i, t). t\<lparr>order_t := int i, updatedAt := clk i\<rparr>) (enumerate n xs))
     = map clk [n..<n + length xs]"
proof (induction xs arbitrary: n)
  case Nil
  show ?case by simp
next
  case (Cons x xs)
  have "[n..<n + length (x # xs)] = n # [Suc n..<Suc n + length xs]"
    by (subst upt_rec) simp
  with Cons.IH [of "Suc n"] show ?case by simp
qed

lemma spliceStart_lt:
  "xs \<noteq> [] \<Longrightarrow> i < int (length xs) \<Longrightarrow> - 1 \<le> i \<Longrightarrow> spliceStart i xs < length xs"
  by (cases xs) (auto simp: spliceStart_def)

lemma reorderTasks_renumbers:
  assumes "tasks (state m) \<noteq> []"
  shows "fst (reorderTasks lc clk d t ia m) = Inr () \<and>
     length (tasks (state (snd (reorderTasks lc clk d t ia m)))) = length (tasks (state m)) \<and>
     map order_t (tasks (state (snd (reorderTasks lc clk d t ia m))))
       = map int [0..<length (tasks (state m))] \<and>
     map updatedAt (tasks (state (snd (reorderTasks lc clk d t ia m))))
       = map clk [0..<length (tasks (state m))]"
proof -
  let ?xs = "tasks (state m)"
  let ?di = "findIndex (\<lambda>x. id_t x = d) ?xs"
  have lt: "spliceStart ?di ?xs < length ?xs"
    using assms findIndex_lt [of "\<lambda>x. id_t x = d" ?xs] findIndex_ge [of "\<lambda>x. id_t x = d" ?xs]
    by (rule spliceStart_lt)
  obtain r rest where sr: "spliceRemove ?di ?xs = (Some r, rest)" and lr: "Suc (length rest) = length ?xs"
    using lt by (auto simp: spliceRemove_def Let_def)
  have li: "length (spliceInsert i r rest) = length ?xs" for i
    using lr by (auto simp: spliceInsert_def Let_def)
  show ?thesis
    using sr li
    by (simp add: reorderTasks_def Let_def state_setState touchesProjection_def noPatch_def
        spreadState_def orElse_def map_enumerate_order map_enumerate_updatedAt
        del: map_map)
qed

section \<open>The search stage of the projection\<close>

lemma includes_s_sublist: "includes_s s q \<longleftrightarrow> sublist q s"
  by (induction s) (auto simp: startsWith_prefix sublist_Cons_right)

text \<open>
  Claim C6 as stated fails: the source trims the query only to decide whether the stage
  applies, and matches with the query as typed (lower-cased). The query \<open>milk\<close> followed
  by a space, trimmed, occurs in the title \<open>Buy milk\<close>, yet the task is dropped.
\<close>

theorem search_query_not_trimmed_counterexample:
  "sublist (toLowerCase sampleHost (trim ''milk ''))
     (toLowerCase sampleHost (title (mkTask ''a'' ''Buy milk'' 1 0))) \<and>
   applySearchFilter sampleHost ''milk '' [mkTask ''a'' ''Buy milk'' 1 0] = []"
proof -
  have "includes_s (toLowerCase sampleHost (title (mkTask ''a'' ''Buy milk'' 1 0)))
          (toLowerCase sampleHost (trim ''milk ''))"
    by (simp add: mkTask_def trim_def trimStart_def trimEnd_def whiteSpace_def sampleHost_def
        asciiToLowerCase_def asciiToLowerChar_def)
  moreover have "applySearchFilter sampleHost ''milk '' [mkTask ''a'' ''Buy milk'' 1 0] = []"
    by (simp add: applySearchFilter_def searchMatches_def mkTask_def trim_def trimStart_def
        trimEnd_def whiteSpace_def sampleHost_def asciiToLowerCase_def asciiToLowerChar_def)
  ultimately show ?thesis by (simp add: includes_s_sublist)
qed

text \<open>
  Claim C6, amended. Whatever the host's \<open>toLowerCase\<close> is, as long as it maps the empty
  string to itself and a non-empty string to a non-empty one (as the language's does): the
  search stage keeps exactly the tasks for which the lower-cased query, not trimmed, is a
  contiguous part of the lower-cased title, of the lower-cased notes, or of at least one
  lower-cased tag; a query that is empty after trimming (empty, or made of white space and
  line terminators only) passes every task through unchanged.
\<close>

theorem search_filter_keeps_untrimmed_matches:
  assumes "toLowerCase h [] = []" and "\<forall>s. s \<noteq> [] \<longrightarrow> toLowerCase h s \<noteq> []"
  shows "applySearchFilter h q ts =
     (if trim q = [] then ts
      else filter (\<lambda>t. sublist (toLowerCase h q) (toLowerCase h (title t)) \<or>
                       sublist (toLowerCase h q) (toLowerCase h (notes_t t)) \<or>
                       (\<exists>tag \<in> set (tags t). sublist (toLowerCase h q) (toLowerCase h tag))) ts)"
proof (cases "trim q = []")
  case True
  then show ?thesis by (simp add: applySearchFilter_def)
next
  case False
  then have "q \<noteq> []" using trim_Nil by auto
  with assms(2) have ne: "toLowerCase h q \<noteq> []" by simp
  have "searchMatches h (toLowerCase h q) t \<longleftrightarrow>
          (sublist (toLowerCase h q) (toLowerCase h (title t)) \<or>
           sublist (toLowerCase h q) (toLowerCase h (notes_t t)) \<or>
           (\<exists>tag \<in> set (tags t). sublist (toLowerCase h q) (toLowerCase h tag)))" for t
  proof (cases "notes_t t = []")
    case True
    with ne assms(1) show ?thesis
      by (simp add: searchMatches_def includes_s_sublist list_ex_iff)
  next
    case False
    then show ?thesis
      by (simp add: searchMatches_def includes_s_sublist list_ex_iff)
  qed
  with False show ?thesis by (simp add: applySearchFilter_def Let_def cong: filter_cong)
qed

theorem search_filter_keeps_untrimmed_matches_witness:
  "toLowerCase sampleHost [] = [] \<and>
   applySearchFilter sampleHost '' Milk'' [mkTask ''a'' ''Buy milk'' 1 0, mkTask ''b'' ''Eggs'' 2 1]
     = [mkTask ''a'' ''Buy milk'' 1 0] \<and>
   applySearchFilter sampleHost ''  '' [mkTask ''a'' ''Buy milk'' 1 0, mkTask ''b'' ''Eggs'' 2 1]
     = [mkTask ''a'' ''Buy milk'' 1 0, mkTask ''b'' ''Eggs'' 2 1]"
proof -
  have e: "toLowerCase sampleHost [] = []"
    by (simp add: sampleHost_def asciiToLowerCase_def)
  have n: "\<forall>s. s \<noteq> [] \<longrightarrow> toLowerCase sampleHost s \<noteq> []"
    by (simp add: sampleHost_def asciiToLowerCase_def)
  from search_filter_keeps_untrimmed_matches [OF e n, of "'' Milk''"
      "[mkTask ''a'' ''Buy milk'' 1 0, mkTask ''b'' ''Eggs'' 2 1]"]
    search_filter_keeps_untrimmed_matches [OF e n, of "''  ''"
      "[mkTask ''a'' ''Buy milk'' 1 0, mkTask ''b'' ''Eggs'' 2 1]"]
  show ?thesis
    by (simp add: mkTask_def trim_def trimStart_def trimEnd_def whiteSpace_def sampleHost_def
        asciiToLowerCase_def asciiToLowerChar_def sublist_code prefix_code)
qed

section \<open>\<open>updateTask\<close> on an existing task\<close>

lemma list_ex_findIndex:
  assumes "list_ex P xs"
  shows "0 \<le> findIndex P xs \<and> nat (findIndex P xs) < length xs \<and> P (xs ! nat (findIndex P xs))"
proof -
  from assms have ne: "findIndex P xs \<noteq> - 1"
    by (simp add: findIndex_none list_ex_iff)
  with findIndex_ge [of P xs] have ge: "0 \<le> findIndex P xs" by linarith
  with findIndex_lt [of P xs] have "nat (findIndex P xs) < length xs" by linarith
  with ge findIndex_sat [OF ne] show ?thesis by simp
qed

lemma spreadTask_protected:
  "id_u upd = None \<Longrightarrow> id_t (spreadTask t upd) = id_t t"
  "createdAt_u upd = None \<Longrightarrow> createdAt (spreadTask t upd) = createdAt t"
  by (simp_all add: spreadTask_def orElse_def)

text \<open>
  Claim C9 as stated fails: the updated task is \<open>{ ...task, ...updates, updatedAt }\<close>, so
  an \<open>updates\<close> object that carries \<open>id\<close> or \<open>createdAt\<close> overwrites them.
\<close>

theorem updateTask_overwrites_id_counterexample:
  "map id_t (tasks (state (snd (updateTask sampleHost 5 ''a'' (noUpdates\<lparr>id_u := Some ''b''\<rparr>) True
      (withTasks [mkTask ''a'' ''x'' 1 0]))))) = [''b''] \<and>
   map createdAt (tasks (state (snd (updateTask sampleHost 5 ''a''
      (noUpdates\<lparr>createdAt_u := Some 99\<rparr>) True (withTasks [mkTask ''a'' ''x'' 1 0]))))) = [99]"
  by (simp add: eval_defs updateTask_def spreadTask_def noUpdates_def Let_def)

text \<open>
  Claim C9, amended. For a task that exists and an \<open>updates\<close> object that carries neither
  \<open>id\<close> nor \<open>createdAt\<close>, \<open>updateTask\<close> returns the first task with that id with the
  given fields merged over it: its \<open>id\<close> and \<open>createdAt\<close> are unchanged, its \<open>updatedAt\<close>
  is the clock reading of the call, and every other position of the collection holds the
  task it held before.
\<close>

theorem updateTask_frame:
  assumes "list_ex (\<lambda>t. id_t t = taskId) (tasks (state m))"
    and "id_u upd = None" and "createdAt_u upd = None"
  shows "let ts = tasks (state m);
             i = nat (findIndex (\<lambda>t. id_t t = taskId) ts);
             t' = (spreadTask (ts ! i) upd)\<lparr>updatedAt := now\<rparr>;
             r = updateTask lc now taskId upd h m
         in i < length ts \<and> id_t (ts ! i) = taskId \<and> fst r = Some t' \<and>
            id_t t' = id_t (ts ! i) \<and> createdAt t' = createdAt (ts ! i) \<and> updatedAt t' = now \<and>
            tasks (state (snd r)) = ts[i := t'] \<and>
            length (tasks (state (snd r))) = length ts \<and>
            (\<forall>j < length ts. j \<noteq> i \<longrightarrow> tasks (state (snd r)) ! j = ts ! j)"
proof -
  let ?ts = "tasks (state m)"
  let ?fi = "findIndex (\<lambda>t. id_t t = taskId) ?ts"
  from list_ex_findIndex [OF assms(1)]
  have ge: "0 \<le> ?fi" and lt: "nat ?fi < length ?ts" and sat: "id_t (?ts ! nat ?fi) = taskId"
    by simp_all
  from ge have ne: "?fi \<noteq> - 1" by linarith
  have st: "tasks (state (setState lc (noPatch\<lparr>tasks_p := Some xs\<rparr>) act m)) = xs" for xs act
    by (simp add: state_setState touchesProjection_def noPatch_def spreadState_def orElse_def)
  show ?thesis
    using ne lt sat assms(2,3)
    by (simp add: updateTask_def Let_def st spreadTask_protected)
qed

theorem updateTask_frame_witness:
  "fst (updateTask sampleHost 5 ''b'' (noUpdates\<lparr>title_u := Some ''new''\<rparr>) True
      (withTasks [mkTask ''a'' ''x'' 1 0, mkTask ''b'' ''y'' 2 1]))
     = Some ((mkTask ''b'' ''new'' 2 1)\<lparr>updatedAt := 5\<rparr>) \<and>
   tasks (state (snd (updateTask sampleHost 5 ''b'' (noUpdates\<lparr>title_u := Some ''new''\<rparr>) True
      (withTasks [mkTask ''a'' ''x'' 1 0, mkTask ''b'' ''y'' 2 1]))))
     = [mkTask ''a'' ''x'' 1 0, (mkTask ''b'' ''new'' 2 1)\<lparr>updatedAt := 5\<rparr>]"
proof -
  have t: "tasks (state (withTasks [mkTask ''a'' ''x'' 1 0, mkTask ''b'' ''y'' 2 1]))
             = [mkTask ''a'' ''x'' 1 0, mkTask ''b'' ''y'' 2 1]"
    by (simp add: eval_defs)
  have ex: "list_ex (\<lambda>t. id_t t = ''b'')
              (tasks (state (withTasks [mkTask ''a'' ''x'' 1 0, mkTask ''b'' ''y'' 2 1])))"
    by (simp add: t) (simp add: mkTask_def)
  have u: "id_u (noUpdates\<lparr>title_u := Some ''new''\<rparr>) = None"
    "createdAt_u (noUpdates\<lparr>title_u := Some ''new''\<rparr>) = None"
    by (simp_all add: noUpdates_def)
  from updateTask_frame [OF ex u, of 5 sampleHost True]
  show ?thesis
    by (simp add: Let_def t) (simp add: mkTask_def spreadTask_def noUpdates_def orElse_def)
qed

section \<open>Facts about the history log\<close>

lemma addToHistory_history:
  assumes "- 1 \<le> historyIndex m" and "historyIndex m < int (length (history m))"
  shows "history (addToHistory p a m) =
           (if nat (historyIndex m + 1) < historySize
            then take (nat (historyIndex m + 1)) (history m) @ [\<lparr>prevState = p, action = a\<rparr>]
            else tl (take (nat (historyIndex m + 1)) (history m) @ [\<lparr>prevState = p, action = a\<rparr>]))"
    and "historyIndex (addToHistory p a m) =
           (if nat (historyIndex m + 1) < historySize then historyIndex m + 1 else historyIndex m)"
proof -
  let ?k = "nat (historyIndex m + 1)"
  have k: "?k \<le> length (history m)" using assms by linarith
  have kept: "(if historyIndex m < int (length (history m)) - 1
               then slice0 (historyIndex m + 1) (history m) else history m)
              = take ?k (history m)"
  proof (cases "historyIndex m < int (length (history m)) - 1")
    case True
    with assms(1) show ?thesis by (simp add: slice0_def)
  next
    case False
    with assms(2) have "?k = length (history m)" by linarith
    with False show ?thesis by simp
  qed
  have len: "length (take ?k (history m) @ [\<lparr>prevState = p, action = a\<rparr>]) = Suc ?k"
    using k by simp
  show "history (addToHistory p a m) =
           (if ?k < historySize
            then take ?k (history m) @ [\<lparr>prevState = p, action = a\<rparr>]
            else tl (take ?k (history m) @ [\<lparr>prevState = p, action = a\<rparr>]))"
    unfolding addToHistory_def Let_def kept len by auto
  show "historyIndex (addToHistory p a m) =
           (if ?k < historySize then historyIndex m + 1 else historyIndex m)"
    unfolding addToHistory_def Let_def kept len by auto
qed

lemma addToHistory_at_end:
  assumes "- 1 \<le> historyIndex m" and "historyIndex m < int (length (history m))"
  shows "historyIndex (addToHistory p a m) = int (length (history (addToHistory p a m))) - 1"
    and "0 \<le> historyIndex (addToHistory p a m)"
    and "history (addToHistory p a m) ! nat (historyIndex (addToHistory p a m))
           = \<lparr>prevState = p, action = a\<rparr>"
proof -
  let ?k = "nat (historyIndex m + 1)"
  let ?e = "\<lparr>prevState = p, action = a\<rparr>"
  have k: "?k \<le> length (history m)" using assms by linarith
  note h = addToHistory_history [OF assms, of p a]
  show e: "historyIndex (addToHistory p a m) = int (length (history (addToHistory p a m))) - 1"
    using k assms(1) by (auto simp: h historySize_def)
  show "0 \<le> historyIndex (addToHistory p a m)"
    using assms(1) by (auto simp: h historySize_def)
  have "length (history (addToHistory p a m)) = (if ?k < historySize then Suc ?k else ?k)"
    using k by (simp add: h)
  then have "0 < length (history (addToHistory p a m))"
    by (simp add: historySize_def split: if_splits)
  then have "history (addToHistory p a m) \<noteq> []" by simp
  moreover have "nat (int (length (history (addToHistory p a m))) - 1)
                   = length (history (addToHistory p a m)) - 1"
    by linarith
  ultimately have "history (addToHistory p a m) ! nat (historyIndex (addToHistory p a m))
               = last (history (addToHistory p a m))"
    unfolding e by (simp add: last_conv_nth)
  also have "\<dots> = ?e"
  proof (cases "?k < historySize")
    case True
    then show ?thesis by (simp add: h)
  next
    case False
    then have "take ?k (history m) \<noteq> []" using k by (auto simp: historySize_def)
    then have "last (tl (take ?k (history m) @ [?e])) = ?e" by (cases "take ?k (history m)") auto
    with False show ?thesis by (simp add: h)
  qed
  finally show "history (addToHistory p a m) ! nat (historyIndex (addToHistory p a m)) = ?e" .
qed

lemma histOk_addToHistory: "histOk m \<Longrightarrow> histOk (addToHistory p a m)"
proof -
  assume ok: "histOk m"
  then have a: "- 1 \<le> historyIndex m" "historyIndex m < int (length (history m))"
    and b: "length (history m) \<le> historySize"
    by (simp_all add: histOk_def)
  have len: "length (history (addToHistory p a m)) \<le> historySize"
    using a b by (auto simp: addToHistory_history [OF a] historySize_def)
  from addToHistory_at_end(1,2) [OF a, of p a] len show ?thesis
    by (simp add: histOk_def)
qed

section \<open>Facts about \<open>undo\<close>, \<open>redo\<close> and recording operations\<close>

lemma spreadState_asPatch: "spreadState s (asPatch s') = s'"
  by (simp add: spreadState_def asPatch_def orElse_def)

lemma touches_asPatch: "touchesProjection (asPatch s)"
  by (simp add: touchesProjection_def asPatch_def)

lemma project_deepClone: "project lc (deepClone s) = project lc s"
  by (simp add: project_def deepClone_def)

lemma sameContent_deepClone: "sameContent (deepClone s) s"
  by (simp add: sameContent_def deepClone_def)

lemma undo_restores:
  assumes "0 \<le> historyIndex m" and "nat (historyIndex m) < length (history m)"
  shows "undo lc m =
           (Inr True,
            m\<lparr>state := (prevState (history m ! nat (historyIndex m)))
                 \<lparr>filteredTasks := project lc (prevState (history m ! nat (historyIndex m)))\<rparr>,
              historyIndex := historyIndex m - 1\<rparr>)"
  using assms
  by (simp add: undo_def Let_def setState_def touches_asPatch spreadState_asPatch
      updateFilteredTasks_def)

lemma undo_nothing: "historyIndex m < 0 \<Longrightarrow> undo lc m = (Inr False, m)"
  by (simp add: undo_def)

lemma setState_recorded_entry:
  assumes "a \<noteq> UNDO" and "a \<noteq> REDO"
    and "- 1 \<le> historyIndex m" and "historyIndex m < int (length (history m))"
  shows "historyIndex (setState lc p (Some a) m)
           = int (length (history (setState lc p (Some a) m))) - 1"
    and "0 \<le> historyIndex (setState lc p (Some a) m)"
    and "history (setState lc p (Some a) m) ! nat (historyIndex (setState lc p (Some a) m))
           = \<lparr>prevState = deepClone (state m), action = a\<rparr>"
  using addToHistory_at_end [OF assms(3,4), of "deepClone (state m)" a]
    history_setState_recorded [OF assms(1,2), of lc p m]
  by simp_all

lemma find_list_ex: "list_ex P xs \<Longrightarrow> \<exists>x. find P xs = Some x"
  by (induction xs) auto

text \<open>The log and the position after an operation that records.\<close>

lemma perform_history:
  assumes "recorded c m"
  shows "\<exists>a. a \<noteq> UNDO \<and> a \<noteq> REDO \<and>
           history (perform lc c m) = history (addToHistory (deepClone (state m)) a m) \<and>
           historyIndex (perform lc c m) = historyIndex (addToHistory (deepClone (state m)) a m)"
proof (cases c)
  case (AddTask newId now now' td)
  then show ?thesis
    by (auto simp: addTask_def Let_def history_setState_recorded)
next
  case (UpdateTask now taskId upd)
  with assms have "list_ex (\<lambda>t. id_t t = taskId) (tasks (state m))" by simp
  from list_ex_findIndex [OF this]
  have "findIndex (\<lambda>t. id_t t = taskId) (tasks (state m)) \<noteq> - 1" by linarith
  with UpdateTask show ?thesis
    by (auto simp: updateTask_def Let_def history_setState_recorded)
next
  case (DeleteTask taskId)
  then show ?thesis
    by (auto simp: deleteTask_def Let_def history_setState_recorded split: selection.splits)
next
  case (ToggleTaskComplete now taskId)
  with assms have ex: "list_ex (\<lambda>t. id_t t = taskId) (tasks (state m))" by simp
  from list_ex_findIndex [OF ex]
  have ne: "findIndex (\<lambda>t. id_t t = taskId) (tasks (state m)) \<noteq> - 1" by linarith
  from find_list_ex [OF ex] obtain t where "find (\<lambda>t. id_t t = taskId) (tasks (state m)) = Some t"
    by blast
  with ToggleTaskComplete ne show ?thesis
    by (auto simp: toggleTaskComplete_def updateTask_def Let_def history_setState_recorded)
next
  case ClearCompleted
  then show ?thesis
    by (auto simp: clearCompleted_def Let_def history_setState_recorded)
next
  case (BulkComplete clk taskIds)
  then show ?thesis
    by (auto simp: bulkComplete_def Let_def history_setState_recorded)
next
  case (BulkDelete taskIds)
  then show ?thesis
    by (auto simp: bulkDelete_def Let_def history_setState_recorded split: selection.splits)
next
  case (BulkSetPriority clk taskIds p)
  then show ?thesis
    by (auto simp: bulkSetPriority_def Let_def history_setState_recorded)
qed

lemma perform_entry:
  assumes "recorded c m" and "- 1 \<le> historyIndex m" and "historyIndex m < int (length (history m))"
  shows "historyIndex (perform lc c m) = int (length (history (perform lc c m))) - 1"
    and "0 \<le> historyIndex (perform lc c m)"
    and "prevState (history (perform lc c m) ! nat (historyIndex (perform lc c m)))
           = deepClone (state m)"
proof -
  from perform_history [OF assms(1), of lc] obtain a where
    h: "history (perform lc c m) = history (addToHistory (deepClone (state m)) a m)"
       "historyIndex (perform lc c m) = historyIndex (addToHistory (deepClone (state m)) a m)"
    by blast
  note e = addToHistory_at_end [OF assms(2,3), of "deepClone (state m)" a]
  show "historyIndex (perform lc c m) = int (length (history (perform lc c m))) - 1"
    using e(1) by (simp add: h)
  show "0 \<le> historyIndex (perform lc c m)"
    using e(2) by (simp add: h)
  show "prevState (history (perform lc c m) ! nat (historyIndex (perform lc c m)))
           = deepClone (state m)"
    using e(3) by (simp add: h)
qed

lemma histOk_perform_recorded: "recorded c m \<Longrightarrow> histOk m \<Longrightarrow> histOk (perform lc c m)"
proof -
  assume r: "recorded c m" and ok: "histOk m"
  from perform_history [OF r, of lc] obtain a where
    h: "history (perform lc c m) = history (addToHistory (deepClone (state m)) a m)"
       "historyIndex (perform lc c m) = historyIndex (addToHistory (deepClone (state m)) a m)"
    by blast
  from histOk_addToHistory [OF ok, of "deepClone (state m)" a] show ?thesis
    by (simp add: histOk_def h)
qed


section \<open>Branch invalidation\<close>



section \<open>The log after a sequence of recording operations\<close>

lemma perform_step_history:
  assumes "recorded c m" and "historyIndex m = int (length (history m)) - 1"
    and "length (history m) \<le> historySize"
  shows "map prevState (history (perform lc c m))
           = drop (Suc (length (history m)) - historySize)
               (map prevState (history m) @ [deepClone (state m)])"
    and "length (history (perform lc c m)) = min (Suc (length (history m))) historySize"
    and "historyIndex (perform lc c m) = int (length (history (perform lc c m))) - 1"
proof -
  from perform_history [OF assms(1), of lc] obtain a where
    h: "history (perform lc c m) = history (addToHistory (deepClone (state m)) a m)"
       "historyIndex (perform lc c m) = historyIndex (addToHistory (deepClone (state m)) a m)"
    by blast
  have b: "- 1 \<le> historyIndex m" "historyIndex m < int (length (history m))"
    using assms(2) by simp_all
  have k: "nat (historyIndex m + 1) = length (history m)" using assms(2) by simp
  note hh = addToHistory_history [OF b, of "deepClone (state m)" a]
  show "historyIndex (perform lc c m) = int (length (history (perform lc c m))) - 1"
    using addToHistory_at_end(1) [OF b, of "deepClone (state m)" a] by (simp add: h)
  show "length (history (perform lc c m)) = min (Suc (length (history m))) historySize"
    using assms(3) by (simp add: h hh k)
  show "map prevState (history (perform lc c m))
           = drop (Suc (length (history m)) - historySize)
               (map prevState (history m) @ [deepClone (state m)])"
  proof (cases "length (history m) < historySize")
    case True
    then show ?thesis by (simp add: h hh k)
  next
    case False
    with assms(3) have "length (history m) = historySize" by simp
    then have d: "Suc (length (history m)) - historySize = Suc 0" by simp
    have "map prevState (history (perform lc c m))
            = map prevState (tl (history m @ [\<lparr>prevState = deepClone (state m), action = a\<rparr>]))"
      using False by (simp add: h hh k)
    also have "\<dots> = tl (map prevState (history m) @ [deepClone (state m)])"
      by (simp add: map_tl)
    also have "\<dots> = drop (Suc 0) (map prevState (history m) @ [deepClone (state m)])"
      by (simp only: drop_Suc drop_0)
    finally show ?thesis by (simp only: d)
  qed
qed

lemma performAll_Cons: "performAll lc (c # cs) m = performAll lc cs (perform lc c m)"
  by (simp add: performAll_def)

lemma performAll_history:
  assumes "allRecorded lc cs m" and "historyIndex m = int (length (history m)) - 1"
    and "length (history m) \<le> historySize"
  shows "map prevState (history (performAll lc cs m))
           = drop (length (history m) + length cs - historySize)
               (map prevState (history m) @ map deepClone (statesBefore lc cs m)) \<and>
         length (history (performAll lc cs m)) = min (length (history m) + length cs) historySize \<and>
         historyIndex (performAll lc cs m) = int (length (history (performAll lc cs m))) - 1"
  using assms
proof (induction cs arbitrary: m)
  case Nil
  then show ?case by (simp add: performAll_def)
next
  case (Cons c cs)
  let ?m = "perform lc c m"
  let ?L = "length (history m)"
  let ?PH = "map prevState (history m)"
  let ?rest = "map deepClone (statesBefore lc cs ?m)"
  from Cons.prems(1) have r: "recorded c m" and rs: "allRecorded lc cs ?m" by simp_all
  note st = perform_step_history [OF r Cons.prems(2,3), of lc]
  have le: "length (history ?m) \<le> historySize" by (simp add: st(2))
  note ih = Cons.IH [OF rs st(3) le]
  have len: "length (history (performAll lc (c # cs) m))
               = min (?L + length (c # cs)) historySize"
    using ih by (simp add: performAll_Cons st(2))
  have idx: "historyIndex (performAll lc (c # cs) m)
               = int (length (history (performAll lc (c # cs) m))) - 1"
    using ih by (simp add: performAll_Cons)
  have "map prevState (history (performAll lc (c # cs) m))
          = drop (length (history ?m) + length cs - historySize)
              (drop (Suc ?L - historySize) (?PH @ [deepClone (state m)]) @ ?rest)"
    using ih by (simp add: performAll_Cons st(1))
  also have "drop (Suc ?L - historySize) (?PH @ [deepClone (state m)]) @ ?rest
          = drop (Suc ?L - historySize) (?PH @ deepClone (state m) # ?rest)"
  proof -
    have "Suc ?L - historySize \<le> length (?PH @ [deepClone (state m)])" by simp
    then have "drop (Suc ?L - historySize) (?PH @ [deepClone (state m)]) @ ?rest
                 = drop (Suc ?L - historySize) ((?PH @ [deepClone (state m)]) @ ?rest)"
      by (simp only: drop_append) simp
    then show ?thesis by simp
  qed
  also have "drop (length (history ?m) + length cs - historySize)
               (drop (Suc ?L - historySize) (?PH @ deepClone (state m) # ?rest))
          = drop (?L + length (c # cs) - historySize) (?PH @ deepClone (state m) # ?rest)"
  proof -
    have "length (history ?m) + length cs - historySize + (Suc ?L - historySize)
            = ?L + length (c # cs) - historySize"
      using Cons.prems(3) by (simp add: st(2) min_def ac_simps)
    then show ?thesis by (simp only: drop_drop)
  qed
  finally have "map prevState (history (performAll lc (c # cs) m))
          = drop (?L + length (c # cs) - historySize)
              (?PH @ map deepClone (statesBefore lc (c # cs) m))"
    by simp
  with len idx show ?case by blast
qed

lemma undoTimes_nothing:
  "historyIndex m < 0 \<Longrightarrow> undoTimes lc j m = (replicate j (Inr False), m)"
  by (induction j) (simp_all add: undo_nothing Let_def)

lemma undoTimes_all:
  assumes "historyIndex m = int k - 1" and "k \<le> length (history m)"
  shows "fst (undoTimes lc (k + j) m) = replicate k (Inr True) @ replicate j (Inr False) \<and>
         historyIndex (snd (undoTimes lc (k + j) m)) = - 1 \<and>
         history (snd (undoTimes lc (k + j) m)) = history m \<and>
         (0 < k \<longrightarrow> state (snd (undoTimes lc (k + j) m))
                      = (prevState (history m ! 0))
                          \<lparr>filteredTasks := project lc (prevState (history m ! 0))\<rparr>)"
  using assms
proof (induction k arbitrary: m)
  case 0
  then show ?case by (simp add: undoTimes_nothing)
next
  case (Suc k)
  let ?m1 = "m\<lparr>state := (prevState (history m ! nat (historyIndex m)))
                 \<lparr>filteredTasks := project lc (prevState (history m ! nat (historyIndex m)))\<rparr>,
              historyIndex := historyIndex m - 1\<rparr>"
  from Suc.prems have ge: "0 \<le> historyIndex m" and lt: "nat (historyIndex m) < length (history m)"
    by simp_all
  have u: "undo lc m = (Inr True, ?m1)" by (rule undo_restores [OF ge lt])
  have p1: "historyIndex ?m1 = int k - 1" using Suc.prems(1) by simp
  have p2: "k \<le> length (history ?m1)" using Suc.prems(2) by simp
  note ih = Suc.IH [OF p1 p2]
  have sk: "Suc k + j = Suc (k + j)" by simp
  have un: "undoTimes lc (Suc (k + j)) m
              = (Inr True # fst (undoTimes lc (k + j) ?m1), snd (undoTimes lc (k + j) ?m1))"
    by (simp add: u Let_def)
  have st: "state (snd (undoTimes lc (k + j) ?m1))
              = (prevState (history m ! 0))\<lparr>filteredTasks := project lc (prevState (history m ! 0))\<rparr>"
  proof (cases k)
    case 0
    with Suc.prems(1) have "nat (historyIndex m) = 0" by simp
    moreover have "historyIndex ?m1 < 0" using 0 p1 by simp
    then have "undoTimes lc (k + j) ?m1 = (replicate j (Inr False), ?m1)"
      unfolding 0 by (simp only: undoTimes_nothing add_0)
    ultimately show ?thesis by simp
  next
    case (Suc k')
    with ih show ?thesis by simp
  qed
  show ?case unfolding sk un using ih st by simp
qed

lemma allRecorded_take: "allRecorded lc cs m \<Longrightarrow> allRecorded lc (take k cs) m"
proof (induction cs arbitrary: m k)
  case Nil
  then show ?case by simp
next
  case (Cons c cs)
  then show ?case by (cases k) simp_all
qed

lemma statesBefore_length: "length (statesBefore lc cs m) = length cs"
  by (induction cs arbitrary: m) simp_all

section \<open>The bound of the history log\<close>

text \<open>
  Claim C2. Start from an empty history and perform eleven operations, each of which
  records an action. After every prefix of \<open>k\<close> of them the log holds \<open>min k 10\<close> entries,
  never more than ten; after all eleven it holds ten, the position is \<open>9\<close> (the eleventh
  record dropped the oldest entry and did not advance the position), and the snapshots
  of the log are those taken before the second to the eleventh operation. Ten calls of
  \<open>undo\<close> then succeed and the eleventh returns \<open>false\<close>; the state they reach is the one
  the first operation produced, so the first operation can no longer be undone.
\<close>

theorem eleven_actions_ten_undo_steps:
  assumes "history m = []" and "historyIndex m = - 1"
    and "length cs = 11" and "allRecorded lc cs m"
  shows "(\<forall>k \<le> 11. length (history (performAll lc (take k cs) m)) = min k 10) \<and>
         length (history (performAll lc cs m)) = 10 \<and>
         historyIndex (performAll lc cs m) = 9 \<and>
         map prevState (history (performAll lc cs m)) = map deepClone (tl (statesBefore lc cs m)) \<and>
         fst (undoTimes lc 11 (performAll lc cs m)) = replicate 10 (Inr True) @ [Inr False] \<and>
         historyIndex (snd (undoTimes lc 11 (performAll lc cs m))) = - 1 \<and>
         sameContent (state (snd (undoTimes lc 11 (performAll lc cs m))))
           (state (perform lc (hd cs) m))"
proof -
  let ?M = "performAll lc cs m"
  have e: "historyIndex m = int (length (history m)) - 1" and l: "length (history m) \<le> historySize"
    using assms(1,2) by simp_all
  have pre: "\<forall>k \<le> 11. length (history (performAll lc (take k cs) m)) = min k 10"
  proof (intro allI impI)
    fix k :: nat
    assume "k \<le> 11"
    with assms(3) have "length (take k cs) = k" by simp
    with performAll_history [OF allRecorded_take [OF assms(4), of k] e l] assms(1)
    show "length (history (performAll lc (take k cs) m)) = min k 10"
      by (simp add: historySize_def)
  qed
  note H = performAll_history [OF assms(4) e l]
  from H assms(1,3) have len: "length (history ?M) = 10" by (simp add: historySize_def)
  with H have idx: "historyIndex ?M = 9" by simp
  from H assms(1,3) have ps: "map prevState (history ?M) = map deepClone (tl (statesBefore lc cs m))"
    by (simp add: historySize_def drop_Suc map_tl drop_map)
  obtain c cs' where cs: "cs = c # cs'" using assms(3) by (cases cs) auto
  with assms(3) obtain c2 cs'' where cs': "cs' = c2 # cs''" by (cases cs') auto
  have "prevState (history ?M ! 0) = map prevState (history ?M) ! 0"
    using len by simp
  also have "\<dots> = map deepClone (tl (statesBefore lc cs m)) ! 0"
    by (simp only: ps)
  also have "\<dots> = deepClone (state (perform lc c m))"
    by (simp add: cs cs')
  finally have p0: "prevState (history ?M ! 0) = deepClone (state (perform lc (hd cs) m))"
    by (simp add: cs)
  have i: "historyIndex ?M = int 10 - 1" using idx by simp
  have k: "10 \<le> length (history ?M)" using len by simp
  from undoTimes_all [OF i k, of lc 1]
  have u: "fst (undoTimes lc 11 ?M) = replicate 10 (Inr True) @ [Inr False]"
    "historyIndex (snd (undoTimes lc 11 ?M)) = - 1"
    "state (snd (undoTimes lc 11 ?M))
       = (prevState (history ?M ! 0))\<lparr>filteredTasks := project lc (prevState (history ?M ! 0))\<rparr>"
    by simp_all
  have "sameContent (state (snd (undoTimes lc 11 ?M))) (state (perform lc (hd cs) m))"
    by (simp add: u(3) p0) (simp add: sameContent_def deepClone_def)
  with pre len idx ps u(1,2) show ?thesis by blast
qed


lemma allRecorded_unconditional:
  assumes "\<And>c m'. c \<in> set cs \<Longrightarrow> recorded c m'"
  shows "allRecorded lc cs m"
  using assms by (induction cs arbitrary: m) auto

theorem eleven_actions_ten_undo_steps_witness:
  "length (history (performAll sampleHost elevenAdds newManager)) = 10 \<and>
   historyIndex (performAll sampleHost elevenAdds newManager) = 9 \<and>
   fst (undoTimes sampleHost 11 (performAll sampleHost elevenAdds newManager))
     = replicate 10 (Inr True) @ [Inr False] \<and>
   map id_t (tasks (state (snd (undoTimes sampleHost 11
      (performAll sampleHost elevenAdds newManager))))) = [''i'']"
proof -
  let ?lc = sampleHost
  have h: "history newManager = []" "historyIndex newManager = - 1"
    by (simp_all add: newManager_def)
  have l: "length elevenAdds = 11" by (simp add: elevenAdds_def)
  have r: "allRecorded ?lc elevenAdds newManager"
    by (rule allRecorded_unconditional) (auto simp: elevenAdds_def)
  have hd: "hd elevenAdds = AddTask ''i'' 0 0 (titled ''x'')"
    by (simp add: elevenAdds_def hd_map)
  have t: "tasks (state (perform ?lc (hd elevenAdds) newManager)) = [mkTask ''i'' ''x'' 0 0]"
    unfolding hd by (simp add: eval_defs addTask_def titled_def Let_def)
  from eleven_actions_ten_undo_steps [OF h l r] t show ?thesis
    by (simp add: sameContent_def mkTask_def)
qed

section \<open>\<open>deleteTask\<close> on an id that is not in the collection\<close>

lemma deleteTask_state:
  "sameContent (state (snd (deleteTask lc taskId h m)))
     ((state m)\<lparr>tasks := filter (\<lambda>t. id_t t \<noteq> taskId) (tasks (state m))\<rparr>) \<and>
   filteredTasks (state (snd (deleteTask lc taskId h m)))
     = project lc ((state m)\<lparr>tasks := filter (\<lambda>t. id_t t \<noteq> taskId) (tasks (state m))\<rparr>)"
  by (simp add: deleteTask_def Let_def state_setState touchesProjection_def noPatch_def
      spreadState_def orElse_def sameContent_def project_def split: selection.splits)

lemma filter_absent: "taskId \<notin> id_t ` set ts \<Longrightarrow> filter (\<lambda>t. id_t t \<noteq> taskId) ts = ts"
  by (induction ts) auto

lemma deleteTask_history:
  "history (snd (deleteTask lc taskId True m))
     = history (addToHistory (deepClone (state m)) (DELETE_TASK taskId) m) \<and>
   historyIndex (snd (deleteTask lc taskId True m))
     = historyIndex (addToHistory (deepClone (state m)) (DELETE_TASK taskId) m)"
  by (auto simp: deleteTask_def Let_def history_setState_recorded split: selection.splits)

lemma tasks_replicate_delete:
  "tasks (state m) = [] \<Longrightarrow>
   tasks (state (performAll lc (replicate n (DeleteTask taskId)) m)) = []"
proof (induction n arbitrary: m)
  case 0
  then show ?case by (simp add: performAll_def)
next
  case (Suc n)
  from deleteTask_state [of lc taskId True m] Suc.prems
  have "tasks (state (perform lc (DeleteTask taskId) m)) = []"
    by (simp add: sameContent_def)
  from Suc.IH [OF this] show ?case by (simp add: performAll_Cons)
qed

text \<open>
  Claim C10 as stated fails where it says that the position counter is advanced: on a
  manager whose position is on the last of ten entries (here after ten deletions on a
  fresh manager) the new entry pushes the oldest one out and the position stays at \<open>9\<close>.
\<close>

theorem deleteTask_full_log_counterexample:
  "''zz'' \<notin> id_t ` set (tasks (state fullManager)) \<and>
   length (history fullManager) = 10 \<and>
   historyIndex fullManager = 9 \<and>
   historyIndex (snd (deleteTask sampleHost ''zz'' True fullManager)) = 9"
proof -
  let ?lc = sampleHost
  let ?cs = "replicate 10 (DeleteTask ''zz'')"
  have h: "historyIndex newManager = int (length (history newManager)) - 1"
    "length (history newManager) \<le> historySize"
    by (simp_all add: newManager_def)
  have r: "allRecorded ?lc ?cs newManager"
    by (rule allRecorded_unconditional) auto
  from performAll_history [OF r h]
  have len: "length (history fullManager) = 10" and idx: "historyIndex fullManager = 9"
    by (simp_all add: fullManager_def newManager_def historySize_def)
  have t: "tasks (state fullManager) = []"
    unfolding fullManager_def by (rule tasks_replicate_delete) (simp add: newManager_def)
  have e: "historyIndex fullManager = int (length (history fullManager)) - 1"
    "length (history fullManager) \<le> historySize"
    using len idx by (simp_all add: historySize_def)
  have r1: "recorded (DeleteTask ''zz'') fullManager" by simp
  from perform_step_history(2,3) [OF r1 e, of ?lc] len
  have "historyIndex (snd (deleteTask ?lc ''zz'' True fullManager)) = 9"
    by (simp add: historySize_def)
  with t len idx show ?thesis by simp
qed

text \<open>
  Claim C10, amended. On a manager whose position is within its log, \<open>deleteTask\<close> with
  an id that no task has returns normally whenever \<open>selectedTasks\<close> is a \<open>Set\<close>, and in
  the state the call leaves the task sequence is as it was. The call still records: the
  entries after the position are discarded and a \<open>DELETE_TASK\<close> entry is appended. The
  position counter advances by one unless it is already \<open>9\<close>, that is on the last of ten
  entries; only then is the oldest entry dropped and the counter keeps its value. Either
  way the position is on the new entry. An \<open>undo\<close> right after succeeds, consumes that
  entry, and restores a state equal to the one before the call (selection aside), with the
  filtered list recomputed.
\<close>

theorem deleteTask_absent_id:
  assumes "taskId \<notin> id_t ` set (tasks (state m))" and "histOk m"
  shows "let r = deleteTask lc taskId True m;
             m' = snd r;
             e = \<lparr>prevState = deepClone (state m), action = DELETE_TASK taskId\<rparr>;
             kept = take (nat (historyIndex m + 1)) (history m)
         in (\<forall>sel. selectedTasks (state m) = IdSet sel \<longrightarrow> fst r = Inr ()) \<and>
            tasks (state m') = tasks (state m) \<and> sameContent (state m') (state m) \<and>
            history m' = (if historyIndex m < 9 then kept @ [e] else tl (kept @ [e])) \<and>
            length (history m') = (if historyIndex m < 9 then nat (historyIndex m + 2) else 10) \<and>
            historyIndex m' = (if historyIndex m < 9 then historyIndex m + 1 else 9) \<and>
            historyIndex m' = int (length (history m')) - 1 \<and>
            fst (undo lc m') = Inr True \<and>
            sameContent (state (snd (undo lc m'))) (state m) \<and>
            filteredTasks (state (snd (undo lc m'))) = project lc (state m) \<and>
            historyIndex (snd (undo lc m')) = historyIndex m' - 1"
proof -
  let ?m' = "snd (deleteTask lc taskId True m)"
  let ?e = "\<lparr>prevState = deepClone (state m), action = DELETE_TASK taskId\<rparr>"
  let ?k = "nat (historyIndex m + 1)"
  from assms(2) have b: "- 1 \<le> historyIndex m" "historyIndex m < int (length (history m))"
    and l: "length (history m) \<le> historySize"
    by (simp_all add: histOk_def)
  have c: "?k < historySize \<longleftrightarrow> historyIndex m < 9"
    using b(1) by (auto simp: historySize_def)
  have k: "length (take ?k (history m)) = ?k" using b by simp
  have r0: "\<forall>sel. selectedTasks (state m) = IdSet sel \<longrightarrow> fst (deleteTask lc taskId True m) = Inr ()"
    by (simp add: deleteTask_def Let_def state_setState touchesProjection_def noPatch_def
        spreadState_def orElse_def)
  from deleteTask_state [of lc taskId True m] filter_absent [OF assms(1)]
  have s: "sameContent (state ?m') (state m)" by simp
  then have t: "tasks (state ?m') = tasks (state m)" by (simp add: sameContent_def)
  note dh = deleteTask_history [of lc taskId m]
  note hh = addToHistory_history [OF b, of "deepClone (state m)" "DELETE_TASK taskId"]
  note ae = addToHistory_at_end [OF b, of "deepClone (state m)" "DELETE_TASK taskId"]
  have h1: "history ?m' = (if historyIndex m < 9 then take ?k (history m) @ [?e]
                           else tl (take ?k (history m) @ [?e]))"
    by (simp add: dh hh c)
  have h2: "historyIndex ?m' = (if historyIndex m < 9 then historyIndex m + 1 else 9)"
    using b l by (auto simp: dh hh c historySize_def)
  have h3: "historyIndex ?m' = int (length (history ?m')) - 1"
    using ae(1) by (simp add: dh)
  have h4: "length (history ?m') = (if historyIndex m < 9 then nat (historyIndex m + 2) else 10)"
    using h3 h2 b(1) by (auto split: if_splits)
  have ge: "0 \<le> historyIndex ?m'" using ae(2) by (simp add: dh)
  with h3 have lt: "nat (historyIndex ?m') < length (history ?m')" by linarith
  have p: "prevState (history ?m' ! nat (historyIndex ?m')) = deepClone (state m)"
    using ae(3) by (simp add: dh)
  note u = undo_restores [OF ge lt, of lc]
  have u1: "fst (undo lc ?m') = Inr True" by (simp add: u)
  have u2: "sameContent (state (snd (undo lc ?m'))) (state m)"
    by (simp add: u p) (simp add: sameContent_def deepClone_def)
  have u3: "filteredTasks (state (snd (undo lc ?m'))) = project lc (state m)"
    by (simp add: u p project_deepClone)
  have u4: "historyIndex (snd (undo lc ?m')) = historyIndex ?m' - 1" by (simp add: u)
  show ?thesis
    unfolding Let_def using r0 t s h1 h2 h3 h4 u1 u2 u3 u4 by blast
qed

theorem deleteTask_absent_id_witness:
  "fst (deleteTask sampleHost ''zz'' True (withTasks [mkTask ''a'' ''x'' 1 0])) = Inr () \<and>
   tasks (state (snd (deleteTask sampleHost ''zz'' True (withTasks [mkTask ''a'' ''x'' 1 0]))))
     = [mkTask ''a'' ''x'' 1 0] \<and>
   map action (history (snd (deleteTask sampleHost ''zz'' True (withTasks [mkTask ''a'' ''x'' 1 0]))))
     = [DELETE_TASK ''zz''] \<and>
   historyIndex (snd (deleteTask sampleHost ''zz'' True (withTasks [mkTask ''a'' ''x'' 1 0]))) = 0 \<and>
   fst (undo sampleHost (snd (deleteTask sampleHost ''zz'' True (withTasks [mkTask ''a'' ''x'' 1 0]))))
     = Inr True \<and>
   tasks (state (snd (undo sampleHost
      (snd (deleteTask sampleHost ''zz'' True (withTasks [mkTask ''a'' ''x'' 1 0]))))))
     = [mkTask ''a'' ''x'' 1 0]"
proof -
  let ?m = "withTasks [mkTask ''a'' ''x'' 1 0]"
  have t: "tasks (state ?m) = [mkTask ''a'' ''x'' 1 0]" by (simp add: eval_defs)
  have sel: "selectedTasks (state ?m) = IdSet {}" by (simp add: eval_defs)
  have h: "history ?m = []" "historyIndex ?m = - 1" by (simp_all add: eval_defs)
  have a: "''zz'' \<notin> id_t ` set (tasks (state ?m))"
    by (simp add: t) (simp add: mkTask_def)
  have ok: "histOk ?m" by (simp add: histOk_def h historySize_def)
  from deleteTask_absent_id [OF a ok, of sampleHost] show ?thesis
    by (simp add: Let_def h t sel historySize_def sameContent_def)
qed

text \<open>
  Outside the amended claim: when the selection is the plain object that a restored
  snapshot carries, that is on every manager an \<open>undo\<close> has left, the call throws after
  it has set the state and the log as above.
\<close>

lemma deleteTask_throws_on_plain_selection:
  "selectedTasks (state m) = PlainObject \<Longrightarrow> fst (deleteTask lc taskId h m) = Inl TypeError"
  by (simp add: deleteTask_def Let_def state_setState touchesProjection_def noPatch_def
      spreadState_def orElse_def)

section \<open>The import merge\<close>

lemma id_lastWriteWins: "id_t (lastWriteWins t x) = id_t x"
  by (simp add: lastWriteWins_def)

lemma absent_id_all: "i \<notin> id_t ` set ts \<Longrightarrow> \<forall>x \<in> set ts. id_t x \<noteq> i"
  by blast

lemma mergeTask_absent:
  "id_t t \<notin> id_t ` set ts \<Longrightarrow> mergeTask ts t = ts @ [t]"
proof -
  assume "id_t t \<notin> id_t ` set ts"
  then have "\<forall>x \<in> set ts. \<not> id_t x = id_t t" by (rule absent_id_all)
  then have "findIndex (\<lambda>x. id_t x = id_t t) ts = - 1" by (simp add: findIndex_none)
  then show ?thesis by (simp add: mergeTask_def)
qed

lemma mergeTask_Cons_other:
  assumes "id_t x \<noteq> id_t t" and "id_t t \<in> id_t ` set xs"
  shows "mergeTask (x # xs) t = x # mergeTask xs t"
proof -
  let ?i = "findIndex (\<lambda>y. id_t y = id_t t) xs"
  from assms(2) have "list_ex (\<lambda>y. id_t y = id_t t) xs" by (auto simp: list_ex_iff)
  from list_ex_findIndex [OF this] have ge: "0 \<le> ?i" by simp
  then have n: "nat (?i + 1) = Suc (nat ?i)" by simp
  from ge have ne: "?i \<noteq> - 1" by simp
  show ?thesis using assms(1) ge ne by (simp add: mergeTask_def Let_def n)
qed

lemma mergeTask_present:
  "distinct (map id_t ts) \<Longrightarrow> id_t t \<in> id_t ` set ts \<Longrightarrow> mergeTask ts t = map (lastWriteWins t) ts"
proof (induction ts)
  case Nil
  then show ?case by simp
next
  case (Cons x xs)
  show ?case
  proof (cases "id_t x = id_t t")
    case True
    with Cons.prems(1) have "id_t t \<notin> id_t ` set xs" by simp
    then have "\<forall>y \<in> set xs. id_t y \<noteq> id_t t" by (rule absent_id_all)
    then have tl: "map (lastWriteWins t) xs = xs"
      by (simp add: lastWriteWins_def map_idI)
    have hd: "lastWriteWins t x = (if updatedAt t > updatedAt x then t else x)"
      using True by (simp add: lastWriteWins_def)
    show ?thesis using True by (simp add: mergeTask_def hd tl)
  next
    case False
    with Cons.prems(2) have m: "id_t t \<in> id_t ` set xs" by auto
    from Cons.prems(1) have "distinct (map id_t xs)" by simp
    from Cons.IH [OF this m] mergeTask_Cons_other [OF False m] False
    show ?thesis by (simp add: lastWriteWins_def)
  qed
qed

lemma find_absent_id: "i \<notin> id_t ` set ts \<Longrightarrow> find (\<lambda>t. id_t t = i) ts = None"
  by (induction ts) auto

lemma foldl_mergeTask:
  "distinct (map id_t ts) \<Longrightarrow> distinct (map id_t incoming) \<Longrightarrow>
   foldl mergeTask ts incoming
     = map (mergedWith incoming) ts @ filter (\<lambda>t. id_t t \<notin> id_t ` set ts) incoming"
proof (induction incoming arbitrary: ts)
  case Nil
  then show ?case by (simp add: mergedWith_def map_idI)
next
  case (Cons t rest)
  from Cons.prems(2) have dr: "distinct (map id_t rest)" and nt: "id_t t \<notin> id_t ` set rest"
    by auto
  show ?case
  proof (cases "id_t t \<in> id_t ` set ts")
    case False
    then have mt: "mergeTask ts t = ts @ [t]" by (rule mergeTask_absent)
    from False Cons.prems(1) have d: "distinct (map id_t (ts @ [t]))" by auto
    have g: "map (mergedWith rest) ts = map (mergedWith (t # rest)) ts"
      using False by (intro map_cong) (auto simp: mergedWith_def)
    have gt: "mergedWith rest t = t"
      by (simp add: mergedWith_def find_absent_id [OF nt])
    have f: "filter (\<lambda>u. id_t u \<noteq> id_t t \<and> id_t u \<notin> id_t ` set ts) rest
               = filter (\<lambda>u. id_t u \<notin> id_t ` set ts) rest"
      using absent_id_all [OF nt] by (intro filter_cong) auto
    from Cons.IH [OF d dr] show ?thesis
      using False by (simp add: mt g gt f)
  next
    case True
    with Cons.prems(1) have mt: "mergeTask ts t = map (lastWriteWins t) ts"
      by (simp add: mergeTask_present)
    have ids: "map id_t (map (lastWriteWins t) ts) = map id_t ts"
      by (simp add: id_lastWriteWins)
    then have ids': "id_t ` set (map (lastWriteWins t) ts) = id_t ` set ts"
      by (metis list.set_map)
    from ids Cons.prems(1) have d: "distinct (map id_t (map (lastWriteWins t) ts))"
      by (simp only:)
    have g: "mergedWith rest (lastWriteWins t x) = mergedWith (t # rest) x" for x
    proof (cases "id_t x = id_t t")
      case True
      then have "find (\<lambda>u. id_t u = id_t (lastWriteWins t x)) rest = None"
        using nt by (simp add: id_lastWriteWins find_absent_id)
      with True show ?thesis by (simp add: mergedWith_def lastWriteWins_def)
    next
      case False
      then show ?thesis by (auto simp: mergedWith_def lastWriteWins_def)
    qed
    from Cons.IH [OF d dr] show ?thesis
      using True by (simp add: mt ids' g del: set_map)
  qed
qed

text \<open>
  Claim C5 as stated fails at equal timestamps: it gives the incoming version whenever the
  local one is not strictly newer, while the source replaces the local task only when the
  incoming one is strictly newer. With both \<open>updatedAt\<close> equal the local task is kept.
\<close>

theorem import_tie_keeps_local_counterexample:
  "\<not> updatedAt (mkTask ''a'' ''local'' 5 0) > updatedAt (mkTask ''a'' ''incoming'' 5 0) \<and>
   importData (storedWith [mkTask ''a'' ''local'' 5 0]) (TaskArray [mkTask ''a'' ''incoming'' 5 0])
     = Inr (storedWith [mkTask ''a'' ''local'' 5 0])"
  by (simp add: importData_def mergeTask_def storedWith_def mkTask_def)

text \<open>
  Claim C5, amended. For an import whose \<open>tasks\<close> field is an array, with ids pairwise
  distinct among the local tasks and among the incoming ones: the merged collection has,
  at the place of every local task, the incoming task of the same id if that one is
  strictly newer and the local task otherwise (so local tasks whose ids do not occur in
  the import are unchanged); the incoming tasks whose ids are not present locally follow,
  in their order. The other fields of the stored snapshot are unchanged.
\<close>

theorem importData_merge:
  assumes "distinct (map id_t (tasks_s existingData))" and "distinct (map id_t incoming)"
  shows "importData existingData (TaskArray incoming)
           = Inr (existingData\<lparr>tasks_s :=
                    map (mergedWith incoming) (tasks_s existingData) @
                    filter (\<lambda>t. id_t t \<notin> id_t ` set (tasks_s existingData)) incoming\<rparr>)"
  by (simp add: importData_def foldl_mergeTask [OF assms])

theorem importData_merge_witness:
  "importData (storedWith [mkTask ''a'' ''x'' 5 0, mkTask ''b'' ''y'' 5 1])
     (TaskArray [mkTask ''a'' ''new'' 7 0, mkTask ''b'' ''old'' 3 1, mkTask ''c'' ''z'' 1 2])
   = Inr (storedWith [mkTask ''a'' ''new'' 7 0, mkTask ''b'' ''y'' 5 1, mkTask ''c'' ''z'' 1 2])"
proof -
  have d1: "distinct (map id_t (tasks_s (storedWith [mkTask ''a'' ''x'' 5 0, mkTask ''b'' ''y'' 5 1])))"
    by (simp add: storedWith_def mkTask_def)
  have d2: "distinct (map id_t [mkTask ''a'' ''new'' 7 0, mkTask ''b'' ''old'' 3 1, mkTask ''c'' ''z'' 1 2])"
    by (simp add: mkTask_def)
  from importData_merge [OF d1 d2] show ?thesis
    by (simp add: storedWith_def mkTask_def mergedWith_def)
qed

section \<open>Facts for the undo and redo round trip\<close>

lemma setState_tasks:
  "state (setState lc (noPatch\<lparr>tasks_p := Some xs\<rparr>) act m)
     = (state m)\<lparr>tasks := xs, filteredTasks := project lc ((state m)\<lparr>tasks := xs\<rparr>)\<rparr>"
  by (simp add: state_setState touchesProjection_def noPatch_def spreadState_def orElse_def
      project_def)

lemma sameContent_tasks:
  assumes "sameContent s s'"
  shows "sameContent (s\<lparr>tasks := xs, filteredTasks := project lc (s\<lparr>tasks := xs\<rparr>)\<rparr>)
           (s'\<lparr>tasks := xs, filteredTasks := project lc (s'\<lparr>tasks := xs\<rparr>)\<rparr>) \<and>
         filteredTasks (s\<lparr>tasks := xs, filteredTasks := project lc (s\<lparr>tasks := xs\<rparr>)\<rparr>)
           = filteredTasks (s'\<lparr>tasks := xs, filteredTasks := project lc (s'\<lparr>tasks := xs\<rparr>)\<rparr>)"
  using assms by (simp add: sameContent_def project_def)

text \<open>Two managers with the same content: the operations leave the same content.\<close>

lemma addTask_cong:
  assumes "sameContent (state m1) (state m2)"
  shows "fst (addTask lc newId now now' td h1 m1) = fst (addTask lc newId now now' td h2 m2) \<and>
         sameContent (state (snd (addTask lc newId now now' td h1 m1)))
           (state (snd (addTask lc newId now now' td h2 m2))) \<and>
         filteredTasks (state (snd (addTask lc newId now now' td h1 m1)))
           = filteredTasks (state (snd (addTask lc newId now now' td h2 m2)))"
proof -
  show ?thesis
    using assms
    by (simp add: sameContent_def addTask_def Let_def setState_tasks project_def
        split: option.splits)
qed

lemma updateTask_cong:
  assumes "sameContent (state m1) (state m2)"
    and "list_ex (\<lambda>t. id_t t = taskId) (tasks (state m1))"
  shows "sameContent (state (snd (updateTask lc now taskId upd h1 m1)))
           (state (snd (updateTask lc now taskId upd h2 m2))) \<and>
         filteredTasks (state (snd (updateTask lc now taskId upd h1 m1)))
           = filteredTasks (state (snd (updateTask lc now taskId upd h2 m2)))"
proof -
  from assms have t: "tasks (state m1) = tasks (state m2)" by (simp add: sameContent_def)
  from list_ex_findIndex [OF assms(2)]
  have ne: "findIndex (\<lambda>t. id_t t = taskId) (tasks (state m2)) \<noteq> - 1" unfolding t by linarith
  show ?thesis
    using assms(1) ne
    by (simp add: sameContent_def updateTask_def Let_def setState_tasks project_def)
qed

lemma deleteTask_cong:
  assumes "sameContent (state m1) (state m2)"
  shows "sameContent (state (snd (deleteTask lc taskId h1 m1)))
           (state (snd (deleteTask lc taskId h2 m2))) \<and>
         filteredTasks (state (snd (deleteTask lc taskId h1 m1)))
           = filteredTasks (state (snd (deleteTask lc taskId h2 m2)))"
proof -
  from assms have t: "tasks (state m1) = tasks (state m2)" by (simp add: sameContent_def)
  from assms have p: "project lc ((state m1)\<lparr>tasks := xs\<rparr>) = project lc ((state m2)\<lparr>tasks := xs\<rparr>)" for xs
    by (simp add: sameContent_def project_def)
  from deleteTask_state [of lc taskId h1 m1] deleteTask_state [of lc taskId h2 m2] assms
  show ?thesis by (simp add: sameContent_def t p)
qed

lemma addTask_replay:
  assumes "length (tasks (state m1)) = length (tasks (state m))"
  shows "fst (addTask lc newId now now' (asTaskData (fst (addTask lc i0 t0 t0' td h m))) h1 m1)
           = fst (addTask lc newId now now' td h2 m1)"
  using assms
  by (simp add: addTask_def Let_def asTaskData_def orElse_def trim_idem
      split: option.splits)

lemma addTask_replay_whole:
  assumes "length (tasks (state m1)) = length (tasks (state m))"
  shows "addTask lc newId now now' (asTaskData (fst (addTask lc i0 t0 t0' td h m))) h1 m1
           = addTask lc newId now now' td h1 m1"
  using assms
  by (simp add: addTask_def Let_def asTaskData_def orElse_def trim_idem
      split: option.splits)

lemma find_Some_ex: "find P xs = Some x \<Longrightarrow> \<exists>y \<in> set xs. P y"
  by (induction xs) (auto split: if_splits)

lemma recorded_iff: "recorded c m \<longleftrightarrow> recordedAction lc c m \<noteq> None"
proof (cases c)
  case (ToggleTaskComplete now taskId)
  show ?thesis
  proof (cases "find (\<lambda>t. id_t t = taskId) (tasks (state m))")
    case None
    then have "\<not> list_ex (\<lambda>t. id_t t = taskId) (tasks (state m))"
      by (simp add: find_None_iff list_ex_iff)
    with None ToggleTaskComplete show ?thesis by simp
  next
    case (Some t)
    from find_Some_ex [OF this] have "list_ex (\<lambda>t. id_t t = taskId) (tasks (state m))"
      by (simp add: list_ex_iff)
    with Some ToggleTaskComplete show ?thesis by simp
  qed
qed simp_all

lemma perform_history_action:
  assumes "recordedAction lc c m = Some a"
  shows "a \<noteq> UNDO \<and> a \<noteq> REDO \<and>
         history (perform lc c m) = history (addToHistory (deepClone (state m)) a m) \<and>
         historyIndex (perform lc c m) = historyIndex (addToHistory (deepClone (state m)) a m)"
proof (cases c)
  case (AddTask newId now now' td)
  with assms show ?thesis
    by (auto simp: addTask_def Let_def history_setState_recorded)
next
  case (UpdateTask now taskId upd)
  with assms have ex: "list_ex (\<lambda>t. id_t t = taskId) (tasks (state m))" and a: "a = UPDATE_TASK taskId upd"
    by (auto split: if_splits)
  from list_ex_findIndex [OF ex]
  have "findIndex (\<lambda>t. id_t t = taskId) (tasks (state m)) \<noteq> - 1" by linarith
  with UpdateTask a show ?thesis
    by (auto simp: updateTask_def Let_def history_setState_recorded)
next
  case (DeleteTask taskId)
  with assms show ?thesis
    by (auto simp: deleteTask_def Let_def history_setState_recorded split: selection.splits)
next
  case (ToggleTaskComplete now taskId)
  with assms obtain t where f: "find (\<lambda>t. id_t t = taskId) (tasks (state m)) = Some t"
    and a: "a = UPDATE_TASK taskId (noUpdates\<lparr>completed_u := Some (\<not> completed t)\<rparr>)"
    by (auto split: option.splits)
  from f have "\<exists>x \<in> set (tasks (state m)). id_t x = taskId"
    by (rule find_Some_ex)
  then have "findIndex (\<lambda>t. id_t t = taskId) (tasks (state m)) \<noteq> - 1"
    by (simp add: findIndex_none)
  with ToggleTaskComplete f a show ?thesis
    by (auto simp: toggleTaskComplete_def updateTask_def Let_def history_setState_recorded)
next
  case ClearCompleted
  with assms show ?thesis
    by (auto simp: clearCompleted_def Let_def history_setState_recorded)
next
  case (BulkComplete clk taskIds)
  with assms show ?thesis
    by (auto simp: bulkComplete_def Let_def history_setState_recorded)
next
  case (BulkDelete taskIds)
  with assms show ?thesis
    by (auto simp: bulkDelete_def Let_def history_setState_recorded split: selection.splits)
next
  case (BulkSetPriority clk taskIds p)
  with assms show ?thesis
    by (auto simp: bulkSetPriority_def Let_def history_setState_recorded)
qed

lemma perform_entry_action:
  assumes "recordedAction lc c m = Some a"
    and "- 1 \<le> historyIndex m" and "historyIndex m < int (length (history m))"
  shows "action (history (perform lc c m) ! nat (historyIndex (perform lc c m))) = a"
  using perform_history_action [OF assms(1)]
    addToHistory_at_end(3) [OF assms(2,3), of "deepClone (state m)" a]
  by simp

lemma snd_redo:
  assumes "- 1 \<le> historyIndex m" and "historyIndex m < int (length (history m)) - 1"
  shows "snd (redo lc newId now now' m)
           = snd (executeAction lc newId now now' (action (history m ! nat (historyIndex m + 1)))
                   (m\<lparr>historyIndex := historyIndex m + 1\<rparr>))"
  using assms by (simp add: redo_def Let_def split: prod.splits sum.splits)

lemma replay_state:
  assumes c: "replayable c" and a: "recordedAction lc c m = Some a"
    and s: "sameContent (state m1) (state m)"
  shows "sameContent (state (snd (executeAction lc newId now now' a m1)))
           (state (perform lc (withReadings c newId now now') m)) \<and>
         filteredTasks (state (snd (executeAction lc newId now now' a m1)))
           = filteredTasks (state (perform lc (withReadings c newId now now') m))"
proof (cases c)
  case (AddTask i0 t0 t0' td)
  with a have a': "a = ADD_TASK (fst (addTask lc i0 t0 t0' td True m))" by simp
  from s have "length (tasks (state m1)) = length (tasks (state m))"
    by (simp add: sameContent_def)
  from addTask_replay_whole [OF this, of lc newId now now' i0 t0 t0' td True False]
  have "snd (executeAction lc newId now now' a m1) = snd (addTask lc newId now now' td False m1)"
    by (simp add: executeAction_def a')
  with addTask_cong [OF s, of lc newId now now' td False True] AddTask
  show ?thesis by simp
next
  case (UpdateTask t0 taskId upd)
  with a have ex: "list_ex (\<lambda>t. id_t t = taskId) (tasks (state m))" and a': "a = UPDATE_TASK taskId upd"
    by (auto split: if_splits)
  from s ex have ex1: "list_ex (\<lambda>t. id_t t = taskId) (tasks (state m1))"
    by (simp add: sameContent_def)
  from updateTask_cong [OF s ex1, of lc now upd False True] UpdateTask
  show ?thesis by (simp add: executeAction_def a')
next
  case (DeleteTask taskId)
  with a have a': "a = DELETE_TASK taskId" by simp
  from deleteTask_cong [OF s, of lc taskId False True] DeleteTask
  show ?thesis by (simp add: executeAction_def a')
next
  case (ToggleTaskComplete t0 taskId)
  with a obtain t where f: "find (\<lambda>t. id_t t = taskId) (tasks (state m)) = Some t"
    and a': "a = UPDATE_TASK taskId (noUpdates\<lparr>completed_u := Some (\<not> completed t)\<rparr>)"
    by (auto split: option.splits)
  from find_Some_ex [OF f] s have ex1: "list_ex (\<lambda>t. id_t t = taskId) (tasks (state m1))"
    by (simp add: sameContent_def list_ex_iff)
  from updateTask_cong [OF s ex1, of lc now "noUpdates\<lparr>completed_u := Some (\<not> completed t)\<rparr>" False True]
    ToggleTaskComplete f
  show ?thesis by (simp add: executeAction_def a' toggleTaskComplete_def)
next
  case ClearCompleted
  with c show ?thesis by simp
next
  case (BulkComplete clk taskIds)
  with c show ?thesis by simp
next
  case (BulkDelete taskIds)
  with c show ?thesis by simp
next
  case (BulkSetPriority clk taskIds p)
  with c show ?thesis by simp
qed

section \<open>The undo and redo round trip\<close>

text \<open>
  Claim C1, amended. Let an operation that records an action take a manager whose position
  is within its log from state \<open>S\<close> to \<open>S'\<close>. Then \<open>undo\<close> succeeds and restores the
  content of \<open>S\<close> (every field but the selection), with the filtered list recomputed as
  the projection of \<open>S\<close>; this holds for all eight kinds of action. A following \<open>redo\<close>
  runs the recorded descriptor again on the restored state: for \<open>addTask\<close>,
  \<open>updateTask\<close>, \<open>deleteTask\<close> and \<open>toggleTaskComplete\<close> the state it leaves has the
  content and the filtered list that the same operation leaves on \<open>S\<close> when it takes the
  readings of the id generator and of the clock that the redo takes. So it equals \<open>S'\<close>
  up to the \<open>updatedAt\<close> of an updated task and up to the id and the two timestamps of a
  re-added task, which are fresh.
\<close>

theorem undo_restores_redo_replays:
  assumes "histOk m" and "recorded c m"
  shows "let m' = perform lc c m;
             mu = snd (undo lc m');
             mr = snd (redo lc newId now now' mu);
             mw = perform lc (withReadings c newId now now') m
         in fst (undo lc m') = Inr True \<and>
            sameContent (state mu) (state m) \<and>
            filteredTasks (state mu) = project lc (state m) \<and>
            (replayable c \<longrightarrow>
               sameContent (state mr) (state mw) \<and>
               filteredTasks (state mr) = filteredTasks (state mw))"
proof -
  let ?m' = "perform lc c m"
  let ?i = "historyIndex ?m'"
  let ?mu = "snd (undo lc ?m')"
  from assms(1) have b: "- 1 \<le> historyIndex m" "historyIndex m < int (length (history m))"
    by (simp_all add: histOk_def)
  note pe = perform_entry [OF assms(2) b, of lc]
  from pe(1,2) have lt: "nat ?i < length (history ?m')" by linarith
  note u = undo_restores [OF pe(2) lt, of lc]
  have u1: "fst (undo lc ?m') = Inr True" by (simp add: u)
  have su: "state ?mu = (deepClone (state m))\<lparr>filteredTasks := project lc (state m)\<rparr>"
    by (simp add: u pe(3) project_deepClone)
  have u2: "sameContent (state ?mu) (state m)"
    by (simp add: su) (simp add: sameContent_def deepClone_def)
  have u3: "filteredTasks (state ?mu) = project lc (state m)"
    by (simp add: su)
  have hu: "history ?mu = history ?m'" and iu: "historyIndex ?mu = ?i - 1"
    by (simp_all add: u)
  have r: "replayable c \<longrightarrow>
             sameContent (state (snd (redo lc newId now now' ?mu)))
               (state (perform lc (withReadings c newId now now') m)) \<and>
             filteredTasks (state (snd (redo lc newId now now' ?mu)))
               = filteredTasks (state (perform lc (withReadings c newId now now') m))"
  proof
    assume rc: "replayable c"
    from assms(2) obtain a where a: "recordedAction lc c m = Some a"
      by (auto simp: recorded_iff [of c m lc])
    note ea = perform_entry_action [OF a b]
    have b1: "- 1 \<le> historyIndex ?mu" using pe(2) by (simp add: iu)
    have b2: "historyIndex ?mu < int (length (history ?mu)) - 1"
      using pe(1) by (simp add: iu hu)
    have "snd (redo lc newId now now' ?mu)
            = snd (executeAction lc newId now now' a (?mu\<lparr>historyIndex := ?i\<rparr>))"
      using snd_redo [OF b1 b2, of lc newId now now'] ea by (simp add: iu hu)
    moreover have "sameContent (state (?mu\<lparr>historyIndex := ?i\<rparr>)) (state m)"
      using u2 by simp
    ultimately show "sameContent (state (snd (redo lc newId now now' ?mu)))
               (state (perform lc (withReadings c newId now now') m)) \<and>
             filteredTasks (state (snd (redo lc newId now now' ?mu)))
               = filteredTasks (state (perform lc (withReadings c newId now now') m))"
      using replay_state [OF rc a, of "?mu\<lparr>historyIndex := ?i\<rparr>" newId now now'] by simp
  qed
  show ?thesis unfolding Let_def using u1 u2 u3 r by blast
qed


theorem undo_restores_redo_replays_witness:
  "fst (undo sampleHost (perform sampleHost (AddTask ''a'' 1 1 (titled ''x'')) newManager)) = Inr True \<and>
   tasks (state (snd (undo sampleHost
      (perform sampleHost (AddTask ''a'' 1 1 (titled ''x'')) newManager)))) = [] \<and>
   tasks (state (snd (redo sampleHost ''b'' 2 3 (snd (undo sampleHost
      (perform sampleHost (AddTask ''a'' 1 1 (titled ''x'')) newManager))))))
     = [(mkTask ''b'' ''x'' 2 0)\<lparr>updatedAt := 3\<rparr>]"
proof -
  let ?lc = sampleHost
  have ok: "histOk newManager" by (simp add: histOk_def newManager_def historySize_def)
  have r: "recorded (AddTask ''a'' 1 1 (titled ''x'')) newManager" by simp
  have t: "tasks (state (perform ?lc (AddTask ''b'' 2 3 (titled ''x'')) newManager))
             = [(mkTask ''b'' ''x'' 2 0)\<lparr>updatedAt := 3\<rparr>]"
    by (simp add: eval_defs addTask_def titled_def Let_def)
  have t0: "tasks (state newManager) = []" by (simp add: newManager_def)
  from undo_restores_redo_replays [OF ok r, of ?lc "''b''" 2 3] t t0 show ?thesis
    by (simp add: Let_def sameContent_def)
qed

text \<open>
  Claim C1 as stated fails: \<open>redo\<close> of an addition calls \<open>addTask\<close> again, which takes a
  new id from the generator and new timestamps from the clock. The task the addition
  created has id \<open>a\<close>; after \<open>undo\<close> and \<open>redo\<close> the collection holds a task with id
  \<open>b\<close> instead.
\<close>

theorem redo_add_fresh_id_counterexample:
  "map id_t (tasks (state (perform sampleHost (AddTask ''a'' 1 1 (titled ''x'')) newManager)))
     = [''a''] \<and>
   map id_t (tasks (state (snd (redo sampleHost ''b'' 2 2 (snd (undo sampleHost
      (perform sampleHost (AddTask ''a'' 1 1 (titled ''x'')) newManager)))))))
     = [''b'']"
  by (simp add: eval_defs addTask_def titled_def Let_def undo_def redo_def
      executeAction_def asTaskData_def)

text \<open>
  Outside the amended claim: for \<open>clearCompleted\<close> and the three bulk operations
  \<open>executeAction\<close> has no case, so \<open>redo\<close> returns \<open>true\<close>, advances the position and
  leaves the restored state as it is; and \<open>redo\<close> of a deletion sets the state and then
  throws, the restored selection being a plain object.
\<close>

lemma redo_skips_unreplayable:
  assumes "histOk m" and "recorded c m" and "\<not> replayable c"
  shows "redo lc newId now now' (snd (undo lc (perform lc c m)))
           = (Inr True, (snd (undo lc (perform lc c m)))
                \<lparr>historyIndex := historyIndex (snd (undo lc (perform lc c m))) + 1\<rparr>)"
proof -
  let ?m' = "perform lc c m"
  let ?i = "historyIndex ?m'"
  let ?mu = "snd (undo lc ?m')"
  from assms(1) have b: "- 1 \<le> historyIndex m" "historyIndex m < int (length (history m))"
    by (simp_all add: histOk_def)
  note pe = perform_entry [OF assms(2) b, of lc]
  from pe(1,2) have lt: "nat ?i < length (history ?m')" by linarith
  note u = undo_restores [OF pe(2) lt, of lc]
  have hu: "history ?mu = history ?m'" and iu: "historyIndex ?mu = ?i - 1"
    by (simp_all add: u)
  from assms(2) obtain a where a: "recordedAction lc c m = Some a"
    by (auto simp: recorded_iff [of c m lc])
  note ea = perform_entry_action [OF a b]
  from a assms(3) have ex: "executeAction lc newId now now' a m1 = (Inr (), m1)" for m1
    by (cases c) (auto simp: executeAction_def)
  have g: "historyIndex ?mu < int (length (history ?mu)) - 1" "0 \<le> historyIndex ?mu + 1"
    using pe(1,2) by (simp_all add: iu hu)
  have "action (history ?mu ! nat (historyIndex ?mu + 1)) = a"
    using ea by (simp add: iu hu)
  with g show ?thesis by (simp add: redo_def Let_def ex)
qed

lemma redo_delete_throws:
  assumes "histOk m" and "c = DeleteTask taskId"
  shows "fst (redo lc newId now now' (snd (undo lc (perform lc c m)))) = Inl TypeError"
proof -
  let ?m' = "perform lc c m"
  let ?i = "historyIndex ?m'"
  let ?mu = "snd (undo lc ?m')"
  have rc: "recorded c m" by (simp add: assms(2))
  from assms(1) have b: "- 1 \<le> historyIndex m" "historyIndex m < int (length (history m))"
    by (simp_all add: histOk_def)
  note pe = perform_entry [OF rc b, of lc]
  from pe(1,2) have lt: "nat ?i < length (history ?m')" by linarith
  note u = undo_restores [OF pe(2) lt, of lc]
  have hu: "history ?mu = history ?m'" and iu: "historyIndex ?mu = ?i - 1"
    by (simp_all add: u)
  have sel: "selectedTasks (state ?mu) = PlainObject"
    by (simp add: u pe(3)) (simp add: deepClone_def)
  have a: "recordedAction lc c m = Some (DELETE_TASK taskId)" by (simp add: assms(2))
  note ea = perform_entry_action [OF a b]
  have g: "historyIndex ?mu < int (length (history ?mu)) - 1" "0 \<le> historyIndex ?mu + 1"
    using pe(1,2) by (simp_all add: iu hu)
  have act: "action (history ?mu ! nat (historyIndex ?mu + 1)) = DELETE_TASK taskId"
    using ea by (simp add: iu hu)
  have "fst (deleteTask lc taskId False (?mu\<lparr>historyIndex := historyIndex ?mu + 1\<rparr>)) = Inl TypeError"
    using sel
    by (simp add: deleteTask_def Let_def state_setState touchesProjection_def noPatch_def
        spreadState_def orElse_def)
  then obtain m2 where
    "deleteTask lc taskId False (?mu\<lparr>historyIndex := historyIndex ?mu + 1\<rparr>) = (Inl TypeError, m2)"
    by (cases "deleteTask lc taskId False (?mu\<lparr>historyIndex := historyIndex ?mu + 1\<rparr>)") simp
  with g act show ?thesis
    by (simp add: redo_def Let_def executeAction_def)
qed

section \<open>The position stays within the log\<close>

text \<open>
  \<open>histOk\<close> holds of a fresh manager and is kept by every operation, so it holds of every
  manager the application can reach.
\<close>

lemma histOk_newManager: "histOk newManager"
  by (simp add: histOk_def newManager_def historySize_def)

lemma histOk_setState_plain: "histOk m \<Longrightarrow> histOk (setState lc p None m)"
  using history_setState_plain [of None lc p m] by (simp add: histOk_def)

lemma histOk_perform: "histOk m \<Longrightarrow> histOk (perform lc c m)"
proof (cases "recorded c m")
  case True
  assume "histOk m"
  with True show ?thesis by (rule histOk_perform_recorded)
next
  case False
  assume ok: "histOk m"
  from False obtain now taskId upd where
    c: "c = UpdateTask now taskId upd \<or> c = ToggleTaskComplete now taskId"
    and n: "\<not> list_ex (\<lambda>t. id_t t = taskId) (tasks (state m))"
    by (cases c) auto
  from n have "taskId \<notin> id_t ` set (tasks (state m))" by (auto simp: list_ex_iff)
  then have "findIndex (\<lambda>t. id_t t = taskId) (tasks (state m)) = - 1"
    "find (\<lambda>t. id_t t = taskId) (tasks (state m)) = None"
    by (auto simp: findIndex_none find_None_iff)
  with c have "perform lc c m = m"
    by (auto simp: updateTask_def toggleTaskComplete_def)
  with ok show ?thesis by simp
qed

lemma histOk_undo: "histOk m \<Longrightarrow> histOk (snd (undo lc m))"
proof -
  assume ok: "histOk m"
  show ?thesis
  proof (cases "0 \<le> historyIndex m")
    case True
    with ok have lt: "nat (historyIndex m) < length (history m)"
      unfolding histOk_def by linarith
    from undo_restores [OF True lt, of lc] ok True show ?thesis
      by (simp add: histOk_def)
  next
    case False
    then have "undo lc m = (Inr False, m)" by (simp add: undo_nothing)
    with ok show ?thesis by simp
  qed
qed

lemma history_executeAction:
  "history (snd (executeAction lc newId now now' a m)) = history m \<and>
   historyIndex (snd (executeAction lc newId now now' a m)) = historyIndex m"
proof -
  have p: "history (setState lc p None m) = history m \<and>
           historyIndex (setState lc p None m) = historyIndex m" for p
    using history_setState_plain [of None lc p m] by simp
  show ?thesis
    by (cases a)
      (auto simp: executeAction_def addTask_def updateTask_def deleteTask_def
         toggleTaskComplete_def Let_def p split: option.splits selection.splits)
qed

lemma histOk_redo: "histOk m \<Longrightarrow> histOk (snd (redo lc newId now now' m))"
proof -
  assume ok: "histOk m"
  show ?thesis
  proof (cases "historyIndex m < int (length (history m)) - 1")
    case True
    from ok have b: "- 1 \<le> historyIndex m" by (simp add: histOk_def)
    from snd_redo [OF b True, of lc newId now now']
      history_executeAction [of lc newId now now' _ "m\<lparr>historyIndex := historyIndex m + 1\<rparr>"]
    have "history (snd (redo lc newId now now' m)) = history m"
      "historyIndex (snd (redo lc newId now now' m)) = historyIndex m + 1"
      by simp_all
    with ok True show ?thesis by (simp add: histOk_def)
  next
    case False
    then have "redo lc newId now now' m = (Inr False, m)" by (simp add: redo_def)
    with ok show ?thesis by simp
  qed
qed

lemma histOk_reorderTasks: "histOk m \<Longrightarrow> histOk (snd (reorderTasks lc clk d t ia m))"
  using history_setState_plain [of None lc _ m]
  by (auto simp: reorderTasks_def Let_def histOk_def split: prod.splits option.splits)

end
